theory Spec2Isabelle
  imports Complex_Main
begin

section \<open>JavaScript values used by the capture classes\<close>

text \<open>
  Strings are modelled as \<^typ>\<open>string\<close>; \<open>toLowerCase\<close> and \<open>trim\<close> act on ASCII letters
  and ASCII white space. The library classes \<open>URL\<close> and \<open>JSON\<close> are not
  part of the repository: \<open>new URL(url)\<close> and \<open>JSON.parse(text)\<close> are parameters
  \<open>U\<close> and \<open>J\<close> of the handlers, returning \<open>None\<close> where the library throws.
  \<open>new Date().toISOString()\<close> is the parameter \<open>now\<close>.
\<close>

subsection \<open>String methods\<close>

definition startsWith :: "string \<Rightarrow> string \<Rightarrow> bool" where
  "startsWith s p = (take (length p) s = p)"

definition endsWith :: "string \<Rightarrow> string \<Rightarrow> bool" where
  "endsWith s p = (length p \<le> length s \<and> drop (length s - length p) s = p)"

fun str_includes :: "string \<Rightarrow> string \<Rightarrow> bool" where
  \<comment> \<open>\<open>s.includes(sub)\<close>\<close>
  "str_includes [] sub = (sub = [])"
| "str_includes (c # cs) sub = (startsWith (c # cs) sub \<or> str_includes cs sub)"

definition toLowerChar :: "char \<Rightarrow> char" where
  "toLowerChar c =
     (case map_of (zip ''ABCDEFGHIJKLMNOPQRSTUVWXYZ'' ''abcdefghijklmnopqrstuvwxyz'') c of
        Some l \<Rightarrow> l | None \<Rightarrow> c)"

definition toLowerCase :: "string \<Rightarrow> string" where
  "toLowerCase s = map toLowerChar s"

definition substring0 :: "nat \<Rightarrow> string \<Rightarrow> string" where
  \<comment> \<open>\<open>s.substring(0, n)\<close>\<close>
  "substring0 n s = take n s"

fun split_on :: "char \<Rightarrow> string \<Rightarrow> string list" where
  "split_on sep [] = [[]]"
| "split_on sep (c # cs) =
     (if c = sep then [] # split_on sep cs
      else (case split_on sep cs of [] \<Rightarrow> [[c]] | w # ws \<Rightarrow> (c # w) # ws))"

definition is_space :: "char \<Rightarrow> bool" where
  "is_space c = (c \<in> set [CHR '' '', CHR 0x09, CHR 0x0A, CHR 0x0B, CHR 0x0C, CHR 0x0D])"

definition trim :: "string \<Rightarrow> string" where
  "trim s = rev (dropWhile is_space (rev (dropWhile is_space s)))"

subsection \<open>Objects, Maps and Sets\<close>

text \<open>
  A plain object with string values (a header dictionary, a query dictionary) is an
  association list in enumeration order; \<open>obj[k] = v\<close> overwrites in place or appends.
  A \<open>Map\<close> is the association list of its entries in insertion order, a \<open>Set\<close> the list
  of its elements in insertion order.
\<close>

type_synonym dict = "(string \<times> string) list"

fun Map_set :: "'k \<Rightarrow> 'v \<Rightarrow> ('k \<times> 'v) list \<Rightarrow> ('k \<times> 'v) list" where
  "Map_set k v [] = [(k, v)]"
| "Map_set k v (p # ps) = (if fst p = k then (k, v) # ps else p # Map_set k v ps)"

definition Map_has :: "'k \<Rightarrow> ('k \<times> 'v) list \<Rightarrow> bool" where
  "Map_has k m = (map_of m k \<noteq> None)"

definition Map_get :: "'k \<Rightarrow> ('k \<times> 'v) list \<Rightarrow> 'v option" where
  "Map_get k m = map_of m k"

fun Map_modify :: "'k \<Rightarrow> ('v \<Rightarrow> 'v) \<Rightarrow> ('k \<times> 'v) list \<Rightarrow> ('k \<times> 'v) list" where
  \<comment> \<open>\<open>const e = m.get(k); \<dots> mutate e \<dots>\<close>\<close>
  "Map_modify k f [] = []"
| "Map_modify k f (p # ps) = (if fst p = k then (k, f (snd p)) # ps else p # Map_modify k f ps)"

definition Object_assign :: "('k \<times> 'v) list \<Rightarrow> ('k \<times> 'v) list \<Rightarrow> ('k \<times> 'v) list" where
  \<comment> \<open>\<open>Object.assign(target, source)\<close>\<close>
  "Object_assign target source = fold (\<lambda>kv t. Map_set (fst kv) (snd kv) t) source target"

definition Object_fromEntries :: "('k \<times> 'v) list \<Rightarrow> ('k \<times> 'v) list" where
  "Object_fromEntries entries = Object_assign [] entries"

definition Set_add :: "'a \<Rightarrow> 'a list \<Rightarrow> 'a list" where
  "Set_add x xs = (if x \<in> set xs then xs else xs @ [x])"


subsection \<open>JSON trees\<close>

text \<open>
  A parsed JSON value. \<open>JObject\<close> and \<open>JArray\<close> are the two values whose \<open>typeof\<close> is
  \<open>'object'\<close> and that are always truthy. The code never computes with a number; it
  only tests one for being zero (truthiness), so a number is kept as a rational.
\<close>

datatype json =
    JNull
  | JBool bool
  | JNumber rat
  | JString string
  | JArray "json list"
  | JObject "(string \<times> json) list"

section \<open>CaptureEverythingRecon: the CDP event handlers\<close>

text \<open>
  The state of the class that the event handlers read and write: the \<open>endpoints\<close> Map
  and \<open>domain\<close>. An endpoint's \<open>headers\<close> and \<open>timing\<close> fields are created empty and
  never written by a handler; they are left out.
\<close>

record requestData =
  rq_requestId :: string
  rq_timestamp :: string
  rq_headers :: dict
  rq_postData :: "string option"
  rq_hasUserGesture :: "bool option"
  rq_initiator :: string

record responseData =
  rs_requestId :: string
  rs_timestamp :: string
  rs_status :: int
  rs_statusText :: string
  rs_headers :: dict
  rs_mimeType :: string
  rs_fromCache :: "bool option"
  rs_extraHeaders :: "dict option"
  rs_statusCode :: "int option"
  rs_body :: "json option"
  rs_bodyText :: "string option"

datatype payload = PayloadData string json | PayloadRaw string string

record cookieEntry =
  ck_name :: string
  ck_value :: string
  ck_domain :: string
  ck_path :: string

record previewEntry =
  pv_timestamp :: string
  pv_preview :: json
  pv_fullDataAvailable :: bool

record endpoint =
  ep_method :: string
  ep_url :: string
  ep_path :: string
  ep_query :: dict
  ep_requests :: "requestData list"
  ep_responses :: "responseData list"
  ep_cookies :: "cookieEntry list"
  ep_tokens :: "string list"
  ep_payloads :: "payload list"
  ep_previewData :: "previewEntry list"

record recon =
  endpoints :: "(string \<times> endpoint) list"
  domain :: "string option"

definition recon_init :: recon where
  "recon_init = \<lparr>endpoints = [], domain = None\<rparr>"

text \<open>The fields of a parsed \<open>URL\<close> object that the code reads.\<close>

record urlObj =
  protocol :: string
  hostname :: string
  pathname :: string
  search :: string
  searchParams :: dict

subsection \<open>Token extraction\<close>

definition tokenHeaders :: "string list" where
  "tokenHeaders = [''authorization'', ''x-auth-token'', ''x-csrf-token'', ''x-api-key'',
     ''x-access-token'', ''x-session-token'', ''cookie'']"

definition cookieToken :: "string \<Rightarrow> string list \<Rightarrow> string list" where
  \<comment> \<open>the body of \<open>cookies.forEach\<close>: \<open>const [name, val] = cookie.split('=')\<close>\<close>
  "cookieToken cookie toks =
     (case split_on CHR ''='' cookie of
        name # val # _ \<Rightarrow>
          (if name \<noteq> [] \<and> val \<noteq> []
           then Set_add (''cookie.'' @ name @ ''='' @ substring0 30 val @ ''...'') toks
           else toks)
      | _ \<Rightarrow> toks)"

definition headerToken :: "string \<times> string \<Rightarrow> string list \<Rightarrow> string list" where
  \<comment> \<open>one iteration of the loop over \<open>Object.entries(headers)\<close>\<close>
  "headerToken kv toks =
     (let key = fst kv; value = snd kv; lowerKey = toLowerCase key in
      if lowerKey \<in> set tokenHeaders then
        (if lowerKey = ''cookie''
         then fold cookieToken (map trim (split_on CHR '';'' value)) toks
         else Set_add (key @ ''='' @ substring0 50 value @ ''...'') toks)
      else toks)"

definition extractTokensFromHeaders :: "dict option \<Rightarrow> endpoint \<Rightarrow> endpoint" where
  "extractTokensFromHeaders headers ep =
     (case headers of
        None \<Rightarrow> ep
      | Some h \<Rightarrow> ep\<lparr>ep_tokens := fold headerToken h (ep_tokens ep)\<rparr>)"

definition tokenKeys :: "string list" where
  "tokenKeys = [''token'', ''access_token'', ''refresh_token'', ''api_key'', ''session_id'', ''auth'']"

text \<open>
  \<open>Object.entries\<close> of a value that passed \<open>typeof payload === 'object'\<close>: the entries
  of an object, the elements of an array under their decimal indices.
\<close>

fun digit_of :: "nat \<Rightarrow> char" where
  "digit_of n = ''0123456789'' ! (n mod 10)"

fun decimal :: "nat \<Rightarrow> string" where
  "decimal n = (if n < 10 then [digit_of n] else decimal (n div 10) @ [digit_of n])"

definition Object_entries :: "json \<Rightarrow> (string \<times> json) list" where
  "Object_entries v =
     (case v of
        JObject es \<Rightarrow> es
      | JArray xs \<Rightarrow> zip (map decimal [0..<length xs]) xs
      | _ \<Rightarrow> [])"

text \<open>
  The closure \<open>searchObject\<close> of \<open>extractTokensFromPayload\<close>, on the entries of the
  object it is called with; it returns the token Set after the walk.
\<close>

function searchObject :: "(string \<times> json) list \<Rightarrow> string \<Rightarrow> string list \<Rightarrow> string list" where
  "searchObject [] path toks = toks"
| "searchObject ((key, value) # rest) path toks =
     (let toks1 =
            (case value of
               JString s \<Rightarrow>
                 (if list_ex (\<lambda>tk. str_includes (toLowerCase key) tk) tokenKeys
                  then Set_add (''payload.'' @ path @ key @ ''='' @ substring0 30 s @ ''...'') toks
                  else toks)
             | _ \<Rightarrow> toks);
          toks2 =
            (case value of
               JObject es \<Rightarrow> searchObject es (path @ key @ ''.'') toks1
             | _ \<Rightarrow> toks1)
      in searchObject rest path toks2)"
  by pat_completeness auto
termination
  by (relation "measure (\<lambda>(es, p, t). size_list (size_prod (\<lambda>_. 0) size) es)") auto

definition extractTokensFromPayload :: "json \<Rightarrow> endpoint \<Rightarrow> endpoint" where
  "extractTokensFromPayload payload ep =
     (case payload of
        JObject es \<Rightarrow> ep\<lparr>ep_tokens := searchObject es [] (ep_tokens ep)\<rparr>
      | JArray xs \<Rightarrow> ep\<lparr>ep_tokens := searchObject (Object_entries payload) [] (ep_tokens ep)\<rparr>
      | _ \<Rightarrow> ep)"

subsection \<open>Event parameters\<close>

text \<open>
  \<open>requestWillBeSent\<close>, \<open>responseReceived\<close> and \<open>loadingFinished\<close> are also the events of
  UltimateDevToolsRecon; the records hold the fields that either class reads.
\<close>

record requestWillBeSent =
  p_requestId :: string
  p_timestamp :: rat
  p_type :: string
  p_url :: string
  p_method :: string
  p_headers :: dict
  p_postData :: "string option"
  p_hasUserGesture :: "bool option"
  p_initiatorType :: "string option"

record associatedCookie =
  ac_name :: string
  ac_value :: string
  ac_domain :: string
  ac_path :: string

record requestWillBeSentExtraInfo =
  x_requestId :: string
  x_headers :: "dict option"
  x_associatedCookies :: "associatedCookie list option"

record responseReceived =
  r_requestId :: string
  r_timestamp :: rat
  r_url :: string
  r_requestMethod :: "string option"
  r_type :: string
  r_status :: int
  r_statusText :: string
  r_headers :: dict
  r_mimeType :: string
  r_fromCache :: "bool option"

record responseReceivedExtraInfo =
  y_requestId :: string
  y_headers :: "dict option"
  y_statusCode :: "int option"

text \<open>
  \<open>Network.getResponseBody\<close> answers \<open>loadingFinished\<close> with a body and its
  \<open>base64Encoded\<close> flag, or fails (\<open>None\<close>).
\<close>

record loadingFinished =
  l_requestId :: string
  l_response :: "(string \<times> bool) option"

subsection \<open>The handlers\<close>

fun modify_first :: "('a \<Rightarrow> bool) \<Rightarrow> ('a \<Rightarrow> 'a) \<Rightarrow> 'a list \<Rightarrow> 'a list" where
  \<comment> \<open>\<open>for (const x of xs) { if (P x) { \<dots> mutate x \<dots>; break; } }\<close>\<close>
  "modify_first P f [] = []"
| "modify_first P f (x # xs) = (if P x then f x # xs else x # modify_first P f xs)"

definition forFirstEndpoint ::
  "(endpoint \<Rightarrow> bool) \<Rightarrow> (endpoint \<Rightarrow> endpoint) \<Rightarrow> (string \<times> endpoint) list \<Rightarrow> (string \<times> endpoint) list"
where
  "forFirstEndpoint P f eps = modify_first (\<lambda>ke. P (snd ke)) (\<lambda>ke. (fst ke, f (snd ke))) eps"

definition hasRequest :: "string \<Rightarrow> endpoint \<Rightarrow> bool" where
  \<comment> \<open>\<open>endpoint.requests.find(r => r.requestId === requestId)\<close> is defined\<close>
  "hasRequest rid ep = list_ex (\<lambda>r. rq_requestId r = rid) (ep_requests ep)"

definition hasResponse :: "string \<Rightarrow> endpoint \<Rightarrow> bool" where
  "hasResponse rid ep = list_ex (\<lambda>r. rs_requestId r = rid) (ep_responses ep)"

definition newEndpoint :: "requestWillBeSent \<Rightarrow> urlObj \<Rightarrow> endpoint" where
  "newEndpoint p u =
     \<lparr>ep_method = p_method p, ep_url = p_url p, ep_path = pathname u,
      ep_query = Object_fromEntries (searchParams u),
      ep_requests = [], ep_responses = [], ep_cookies = [], ep_tokens = [],
      ep_payloads = [], ep_previewData = []\<rparr>"

definition capturePostData :: "(string \<Rightarrow> json option) \<Rightarrow> string \<Rightarrow> string option \<Rightarrow> endpoint \<Rightarrow> endpoint" where
  \<comment> \<open>\<open>if (request.postData) { try { JSON.parse \<dots> } catch { \<dots> raw \<dots> } }\<close>\<close>
  "capturePostData J now postData ep =
     (case postData of
        None \<Rightarrow> ep
      | Some d \<Rightarrow>
          (if d = [] then ep
           else (case J d of
                   Some parsed \<Rightarrow>
                     extractTokensFromPayload parsed
                       (ep\<lparr>ep_payloads := ep_payloads ep @ [PayloadData now parsed]\<rparr>)
                 | None \<Rightarrow> ep\<lparr>ep_payloads := ep_payloads ep @ [PayloadRaw now d]\<rparr>)))"

definition recordRequest :: "(string \<Rightarrow> json option) \<Rightarrow> string \<Rightarrow> requestWillBeSent \<Rightarrow> endpoint \<Rightarrow> endpoint" where
  "recordRequest J now p ep =
     (let requestData =
            \<lparr>rq_requestId = p_requestId p, rq_timestamp = now, rq_headers = p_headers p,
             rq_postData = p_postData p, rq_hasUserGesture = p_hasUserGesture p,
             rq_initiator =
               (case p_initiatorType p of
                  None \<Rightarrow> ''unknown''
                | Some t \<Rightarrow> if t = [] then ''unknown'' else t)\<rparr>
      in capturePostData J now (p_postData p)
           (extractTokensFromHeaders (Some (p_headers p))
              (ep\<lparr>ep_requests := ep_requests ep @ [requestData]\<rparr>)))"

definition endpointKey :: "requestWillBeSent \<Rightarrow> urlObj \<Rightarrow> string" where
  "endpointKey p u = p_method p @ '' '' @ pathname u @ search u"

definition captureRequest ::
  "(string \<Rightarrow> urlObj option) \<Rightarrow> (string \<Rightarrow> json option) \<Rightarrow> string \<Rightarrow> requestWillBeSent \<Rightarrow> recon \<Rightarrow> recon"
where
  "captureRequest U J now p s =
     (if p_type p \<noteq> ''Fetch'' \<and> p_type p \<noteq> ''XHR'' then s
      else if \<not> startsWith (p_url p) ''http'' then s
      else (case U (p_url p) of
              None \<Rightarrow> s
            | Some u \<Rightarrow>
                (let newDomain =
                       (if (domain s = None \<or> domain s = Some [])
                           \<and> (str_includes (p_url p) ''/api/'' \<or> str_includes (p_url p) ''/trpc/'')
                        then Some (hostname u) else domain s);
                     key = endpointKey p u;
                     eps =
                       (if \<not> Map_has key (endpoints s)
                        then Map_set key (newEndpoint p u) (endpoints s)
                        else endpoints s)
                 in \<lparr>endpoints = Map_modify key (recordRequest J now p) eps, domain = newDomain\<rparr>)))"

definition mergeExtraHeaders :: "requestWillBeSentExtraInfo \<Rightarrow> dict \<Rightarrow> endpoint \<Rightarrow> endpoint" where
  "mergeExtraHeaders x h ep =
     (let ep1 = ep\<lparr>ep_requests :=
                   modify_first (\<lambda>r. rq_requestId r = x_requestId x)
                     (\<lambda>r. r\<lparr>rq_headers := Object_assign (rq_headers r) h\<rparr>) (ep_requests ep)\<rparr>
      in (case x_associatedCookies x of
            None \<Rightarrow> ep1
          | Some cs \<Rightarrow>
              (if cs = [] then ep1
               else ep1\<lparr>ep_cookies :=
                      map (\<lambda>c. \<lparr>ck_name = ac_name c, ck_value = substring0 50 (ac_value c) @ ''...'',
                                 ck_domain = ac_domain c, ck_path = ac_path c\<rparr>) cs\<rparr>)))"

definition captureRequestHeaders :: "requestWillBeSentExtraInfo \<Rightarrow> recon \<Rightarrow> recon" where
  "captureRequestHeaders x s =
     (case x_headers x of
        None \<Rightarrow> s
      | Some h \<Rightarrow>
          s\<lparr>endpoints := forFirstEndpoint (hasRequest (x_requestId x)) (mergeExtraHeaders x h) (endpoints s)\<rparr>)"

definition pushResponse :: "string \<Rightarrow> responseReceived \<Rightarrow> endpoint \<Rightarrow> endpoint" where
  "pushResponse now r ep =
     ep\<lparr>ep_responses := ep_responses ep @
          [\<lparr>rs_requestId = r_requestId r, rs_timestamp = now, rs_status = r_status r,
            rs_statusText = r_statusText r, rs_headers = r_headers r, rs_mimeType = r_mimeType r,
            rs_fromCache = r_fromCache r, rs_extraHeaders = None, rs_statusCode = None,
            rs_body = None, rs_bodyText = None\<rparr>]\<rparr>"

definition captureResponse :: "string \<Rightarrow> responseReceived \<Rightarrow> recon \<Rightarrow> recon" where
  "captureResponse now r s =
     (if r_type r \<noteq> ''Fetch'' \<and> r_type r \<noteq> ''XHR'' then s
      else s\<lparr>endpoints := forFirstEndpoint (hasRequest (r_requestId r)) (pushResponse now r) (endpoints s)\<rparr>)"

definition mergeResponseHeaders :: "responseReceivedExtraInfo \<Rightarrow> endpoint \<Rightarrow> endpoint" where
  "mergeResponseHeaders y ep =
     extractTokensFromHeaders (y_headers y)
       (ep\<lparr>ep_responses :=
            modify_first (\<lambda>r. rs_requestId r = y_requestId y)
              (\<lambda>r. r\<lparr>rs_extraHeaders := y_headers y, rs_statusCode := y_statusCode y\<rparr>)
              (ep_responses ep)\<rparr>)"

definition captureResponseHeaders :: "responseReceivedExtraInfo \<Rightarrow> recon \<Rightarrow> recon" where
  "captureResponseHeaders y s =
     s\<lparr>endpoints := forFirstEndpoint (hasResponse (y_requestId y)) (mergeResponseHeaders y) (endpoints s)\<rparr>"

text \<open>
  \<open>captureResponseBody\<close> after its \<open>await\<close>. \<open>extractPreviewData\<close> only computes, from
  the parsed body, the string or object stored under \<open>preview\<close>; it is the parameter \<open>P\<close>.
\<close>

definition mergeBody ::
  "(string \<Rightarrow> json option) \<Rightarrow> (json \<Rightarrow> json) \<Rightarrow> string \<Rightarrow> string \<Rightarrow> bool \<Rightarrow> endpoint \<Rightarrow> endpoint"
where
  "mergeBody J P rid body base64Encoded ep =
     (if base64Encoded then ep
      else (case find (\<lambda>r. rs_requestId r = rid) (ep_responses ep) of
              None \<Rightarrow> ep
            | Some resp \<Rightarrow>
                (case J body of
                   Some parsed \<Rightarrow>
                     extractTokensFromPayload parsed
                       (ep\<lparr>ep_responses :=
                             modify_first (\<lambda>r. rs_requestId r = rid)
                               (\<lambda>r. r\<lparr>rs_body := Some parsed\<rparr>) (ep_responses ep),
                           ep_previewData := ep_previewData ep @
                             [\<lparr>pv_timestamp = rs_timestamp resp, pv_preview = P parsed,
                               pv_fullDataAvailable = True\<rparr>]\<rparr>)
                 | None \<Rightarrow>
                     ep\<lparr>ep_responses :=
                          modify_first (\<lambda>r. rs_requestId r = rid)
                            (\<lambda>r. r\<lparr>rs_bodyText := Some (substring0 500 body)\<rparr>) (ep_responses ep),
                        ep_previewData := ep_previewData ep @
                          [\<lparr>pv_timestamp = rs_timestamp resp,
                            pv_preview = JString (substring0 200 (substring0 500 body) @ ''...''),
                            pv_fullDataAvailable = False\<rparr>]\<rparr>)))"

definition captureResponseBody ::
  "(string \<Rightarrow> json option) \<Rightarrow> (json \<Rightarrow> json) \<Rightarrow> loadingFinished \<Rightarrow> recon \<Rightarrow> recon"
where
  "captureResponseBody J P l s =
     (case l_response l of
        None \<Rightarrow> s
      | Some (body, base64Encoded) \<Rightarrow>
          s\<lparr>endpoints :=
              forFirstEndpoint (hasResponse (l_requestId l)) (mergeBody J P (l_requestId l) body base64Encoded)
                (endpoints s)\<rparr>)"

subsection \<open>Stand-ins for the library, to run the handlers on concrete events\<close>

text \<open>
  \<open>URL_simple\<close> reads an absolute URL \<open>scheme://host/path?query#fragment\<close> that has no
  port, no user information and nothing to percent-encode or normalise, which is all the
  concrete events below contain. \<open>JSON_none\<close> rejects every text.
\<close>

fun split_at :: "string \<Rightarrow> string \<Rightarrow> (string \<times> string) option" where
  "split_at sep [] = (if sep = [] then Some ([], []) else None)"
| "split_at sep (c # cs) =
     (if startsWith (c # cs) sep then Some ([], drop (length sep) (c # cs))
      else map_option (\<lambda>ab. (c # fst ab, snd ab)) (split_at sep cs))"

definition query_pair :: "string \<Rightarrow> string \<times> string" where
  "query_pair kv = (case split_at ''='' kv of None \<Rightarrow> (kv, []) | Some ab \<Rightarrow> ab)"

definition URL_simple :: "string \<Rightarrow> urlObj option" where
  "URL_simple url =
     (case split_at ''://'' url of
        None \<Rightarrow> None
      | Some (scheme, rest) \<Rightarrow>
          (let host = takeWhile (\<lambda>c. c \<notin> set ''/?#'') rest;
               rest1 = dropWhile (\<lambda>c. c \<notin> set ''/?#'') rest;
               path = takeWhile (\<lambda>c. c \<notin> set ''?#'') rest1;
               rest2 = dropWhile (\<lambda>c. c \<notin> set ''?#'') rest1;
               query = takeWhile (\<lambda>c. c \<noteq> CHR ''#'') rest2
           in if scheme = [] \<or> host = [] then None
              else Some \<lparr>protocol = scheme @ '':'', hostname = host,
                         pathname = (if path = [] then ''/'' else path),
                         search = (if query = ''?'' then [] else query),
                         searchParams =
                           (if length query \<le> 1 then []
                            else map query_pair (split_on CHR ''&'' (drop 1 query)))\<rparr>))"

definition JSON_none :: "string \<Rightarrow> json option" where
  "JSON_none text = None"

text \<open>Concrete events: one XHR request and enrichment events for it and for an unknown id.\<close>

definition req1 :: requestWillBeSent where
  "req1 = \<lparr>p_requestId = ''1'', p_timestamp = 0, p_type = ''XHR'', p_url = ''https://x.com/api/users/123'',
            p_method = ''GET'', p_headers = [(''accept'', ''*/*'')], p_postData = None,
            p_hasUserGesture = None, p_initiatorType = Some ''script''\<rparr>"

definition resp_for :: "string \<Rightarrow> responseReceived" where
  "resp_for rid = \<lparr>r_requestId = rid, r_timestamp = 1, r_url = ''https://x.com/api/users/123'',
            r_requestMethod = None, r_type = ''XHR'', r_status = 200, r_statusText = ''OK'',
            r_headers = [(''content-type'', ''application/json'')],
            r_mimeType = ''application/json'', r_fromCache = None\<rparr>"

definition extra_for :: "string \<Rightarrow> requestWillBeSentExtraInfo" where
  "extra_for rid = \<lparr>x_requestId = rid, x_headers = Some [(''cookie'', ''sid=abc'')],
            x_associatedCookies = None\<rparr>"

definition state1 :: recon where
  "state1 = captureRequest URL_simple JSON_none ''t0'' req1 recon_init"

definition rextra_for :: "string \<Rightarrow> responseReceivedExtraInfo" where
  "rextra_for rid = \<lparr>y_requestId = rid, y_headers = Some [(''set-cookie'', ''sid=abc'')],
            y_statusCode = Some 200\<rparr>"

definition body_for :: "string \<Rightarrow> loadingFinished" where
  "body_for rid = \<lparr>l_requestId = rid, l_response = Some (''hello'', False)\<rparr>"


section \<open>The URL templater: extractEndpointPattern\<close>

subsection \<open>The regular expressions\<close>

text \<open>
  Every pattern that \<open>extractEndpointPattern\<close> replaces starts with a literal \<open>/\<close>.
  A pattern is given by a matcher for what follows that \<open>/\<close>: on the rest of the
  string it returns how many characters the pattern takes there, or \<open>None\<close> where it
  does not match. None of the patterns needs backtracking: a counted or greedy character
  class is followed by nothing or by a character outside the class.
\<close>

definition is_digit :: "char \<Rightarrow> bool" where
  \<comment> \<open>\<open>\d\<close>\<close>
  "is_digit c = (c \<in> set ''0123456789'')"

definition is_hex_lower :: "char \<Rightarrow> bool" where
  \<comment> \<open>\<open>[a-f0-9]\<close>\<close>
  "is_hex_lower c = (c \<in> set ''abcdef0123456789'')"

definition is_alnum :: "char \<Rightarrow> bool" where
  \<comment> \<open>\<open>[a-zA-Z0-9]\<close>\<close>
  "is_alnum c = (c \<in> set ''abcdefghijklmnopqrstuvwxyzABCDEFGHIJKLMNOPQRSTUVWXYZ0123456789'')"

definition is_word :: "char \<Rightarrow> bool" where
  \<comment> \<open>\<open>[\w\d]\<close>, that is \<open>\w\<close>\<close>
  "is_word c = (is_alnum c \<or> c = CHR ''_'')"

definition is_handle :: "char \<Rightarrow> bool" where
  \<comment> \<open>\<open>[\w\d_.-]\<close>\<close>
  "is_handle c = (is_word c \<or> c = CHR ''.'' \<or> c = CHR ''-'')"

definition m_atleast :: "nat \<Rightarrow> (char \<Rightarrow> bool) \<Rightarrow> string \<Rightarrow> nat option" where
  \<comment> \<open>\<open>[cls]{n,}\<close>, greedy; \<open>[cls]+\<close> is \<open>m_atleast 1 cls\<close>\<close>
  "m_atleast n cls s = (let k = length (takeWhile cls s) in if n \<le> k then Some k else None)"

definition m_exact :: "nat \<Rightarrow> (char \<Rightarrow> bool) \<Rightarrow> string \<Rightarrow> nat option" where
  \<comment> \<open>\<open>[cls]{n}\<close>\<close>
  "m_exact n cls s = (if n \<le> length s \<and> list_all cls (take n s) then Some n else None)"

definition m_lit :: "string \<Rightarrow> string \<Rightarrow> nat option" where
  "m_lit lit s = (if startsWith s lit then Some (length lit) else None)"

definition m_seq :: "(string \<Rightarrow> nat option) \<Rightarrow> (string \<Rightarrow> nat option) \<Rightarrow> string \<Rightarrow> nat option" where
  "m_seq m1 m2 s =
     (case m1 s of
        None \<Rightarrow> None
      | Some a \<Rightarrow> (case m2 (drop a s) of None \<Rightarrow> None | Some b \<Rightarrow> Some (a + b)))"

definition m_alt :: "(string \<Rightarrow> nat option) \<Rightarrow> (string \<Rightarrow> nat option) \<Rightarrow> string \<Rightarrow> nat option" where
  "m_alt m1 m2 s = (case m1 s of Some a \<Rightarrow> Some a | None \<Rightarrow> m2 s)"

fun replaceAll :: "(string \<Rightarrow> nat option) \<Rightarrow> string \<Rightarrow> string \<Rightarrow> string" where
  \<comment> \<open>\<open>path.replace(/\/\<dots>/g, rep)\<close>: matches are taken left to right and do not overlap\<close>
  "replaceAll m rep [] = []"
| "replaceAll m rep (c # cs) =
     (if c = CHR ''/'' then
        (case m cs of
           Some n \<Rightarrow> rep @ replaceAll m rep (drop n cs)
         | None \<Rightarrow> c # replaceAll m rep cs)
      else c # replaceAll m rep cs)"

definition re_id :: "string \<Rightarrow> nat option" where
  \<comment> \<open>\<open>/\/\d+/g\<close>\<close>
  "re_id = m_atleast 1 is_digit"

definition re_uuid :: "string \<Rightarrow> nat option" where
  \<comment> \<open>\<open>/\/[a-f0-9]{8}-[a-f0-9]{4}-[a-f0-9]{4}-[a-f0-9]{4}-[a-f0-9]{12}/g\<close>\<close>
  "re_uuid =
     m_seq (m_exact 8 is_hex_lower) (m_seq (m_lit ''-'')
    (m_seq (m_exact 4 is_hex_lower) (m_seq (m_lit ''-'')
    (m_seq (m_exact 4 is_hex_lower) (m_seq (m_lit ''-'')
    (m_seq (m_exact 4 is_hex_lower) (m_seq (m_lit ''-'')
           (m_exact 12 is_hex_lower))))))))"

definition re_token :: "string \<Rightarrow> nat option" where
  \<comment> \<open>\<open>/\/[a-zA-Z0-9]{20,}/g\<close>\<close>
  "re_token = m_atleast 20 is_alnum"

definition re_username :: "string \<Rightarrow> nat option" where
  \<comment> \<open>\<open>/\/@[\w\d_.-]+/g\<close> (UltimateDevToolsRecon)\<close>
  "re_username = m_seq (m_lit ''@'') (m_atleast 1 is_handle)"

definition re_username_universal :: "string \<Rightarrow> nat option" where
  \<comment> \<open>\<open>/\/@[\w\d_]+/g\<close> (UniversalEndpointRecon)\<close>
  "re_username_universal = m_seq (m_lit ''@'') (m_atleast 1 is_word)"

definition re_postId :: "string \<Rightarrow> nat option" where
  \<comment> \<open>\<open>/\/p\/[\w\d]+/g\<close>\<close>
  "re_postId = m_seq (m_lit ''p/'') (m_atleast 1 is_word)"

definition re_objectId :: "string \<Rightarrow> nat option" where
  \<comment> \<open>\<open>/\/[a-f0-9]{24}/g\<close>\<close>
  "re_objectId = m_exact 24 is_hex_lower"

definition re_temp :: "string \<Rightarrow> nat option" where
  \<comment> \<open>\<open>/\/(tmp|temp)\/[^/]+/g\<close>\<close>
  "re_temp =
     m_alt (m_seq (m_lit ''tmp/'') (m_atleast 1 (\<lambda>c. c \<noteq> CHR ''/'')))
           (m_seq (m_lit ''temp/'') (m_atleast 1 (\<lambda>c. c \<noteq> CHR ''/'')))"

subsection \<open>The two templaters\<close>

definition extractEndpointPattern :: "urlObj \<Rightarrow> string" where
  \<comment> \<open>UltimateDevToolsRecon\<close>
  "extractEndpointPattern u =
     (let path = pathname u;
          path = replaceAll re_id ''/{id}'' path;
          path = replaceAll re_uuid ''/{uuid}'' path;
          path = replaceAll re_token ''/{token}'' path;
          path = replaceAll re_username (''/@'' @ ''{username}'') path;
          path = replaceAll re_postId ''/p/{postId}'' path;
          path = replaceAll re_objectId ''/{objectId}'' path;
          path = replaceAll re_temp ''/{temp}/{file}'' path
      in protocol u @ ''//'' @ hostname u @ path)"

definition extractEndpointPattern_universal :: "urlObj \<Rightarrow> string" where
  \<comment> \<open>UniversalEndpointRecon\<close>
  "extractEndpointPattern_universal u =
     (let path = pathname u;
          path = replaceAll re_id ''/{id}'' path;
          path = replaceAll re_uuid ''/{uuid}'' path;
          path = replaceAll re_token ''/{token}'' path;
          path = replaceAll re_username_universal (''/@'' @ ''{username}'') path;
          path = replaceAll re_postId ''/p/{postId}'' path
      in protocol u @ ''//'' @ hostname u @ path)"

definition endpointKey_of :: "(urlObj \<Rightarrow> string) \<Rightarrow> string \<Rightarrow> urlObj \<Rightarrow> string" where
  \<comment> \<open>\<open>`${method} ${endpointPattern}`\<close>\<close>
  "endpointKey_of pattern method u = method @ '' '' @ pattern u"

definition url_x :: "string \<Rightarrow> urlObj" where
  \<comment> \<open>the parsed \<open>https://x.com\<close> URL with the given path and no query\<close>
  "url_x path = \<lparr>protocol = ''https:'', hostname = ''x.com'', pathname = path,
                  search = [], searchParams = []\<rparr>"

text \<open>
  No \<open>/\<close> in the string is followed by twenty or more characters of \<open>[a-zA-Z0-9]\<close>:
  what the replacement of long tokens leaves behind.
\<close>

fun noRun :: "string \<Rightarrow> bool" where
  "noRun [] = True"
| "noRun (c # cs) = ((c = CHR ''/'' \<longrightarrow> length (takeWhile is_alnum cs) < 20) \<and> noRun cs)"

section \<open>UltimateDevToolsRecon: the endpoint catalog keyed by template\<close>

text \<open>
  The state that the three network handlers read and write: the \<open>endpoints\<close> Map,
  \<open>domain\<close> and \<open>networkRequests\<close>. The handlers also write \<open>authTokens\<close>,
  \<open>trpcCalls\<close> and \<open>cookies\<close>, which none of them reads back and whose updates
  cannot throw; these are left out, as are the \<open>timing\<close> fields. \<open>new URLSearchParams\<close>
  is the parameter \<open>Q\<close>.
\<close>

datatype body = BodyJson json | BodyText string

record ud_requestData =
  uq_timestamp :: rat
  uq_requestId :: string
  uq_data :: json
  uq_raw :: string

record ud_response =
  ur_requestId :: string
  ur_timestamp :: rat
  ur_status :: int
  ur_statusText :: string
  ur_headers :: dict
  ur_mimeType :: string
  ur_body :: "body option"

record ud_endpoint =
  ud_pattern :: string
  ud_method :: string
  ud_examples :: "string list"
  ud_category :: string
  ud_headers :: dict
  ud_requestData :: "ud_requestData list"
  ud_responses :: "ud_response list"
  ud_initiators :: "string list"

record networkRequest =
  nr_requestId :: string
  nr_timestamp :: rat
  nr_url :: string
  nr_method :: string
  nr_headers :: dict
  nr_postData :: "string option"
  nr_initiatorType :: "string option"

record ultimate =
  ud_endpoints :: "(string \<times> ud_endpoint) list"
  ud_domain :: "string option"
  ud_networkRequests :: "networkRequest list"

definition ultimate_init :: ultimate where
  "ultimate_init = \<lparr>ud_endpoints = [], ud_domain = None, ud_networkRequests = []\<rparr>"

definition categorizeEndpoint :: "urlObj \<Rightarrow> string" where
  "categorizeEndpoint u =
     (let path = toLowerCase (pathname u); hostname = toLowerCase (hostname u) in
      if str_includes hostname ''cdn'' \<or> str_includes hostname ''media'' \<or> str_includes hostname ''static''
      then ''CDN/Media''
      else if str_includes path ''/trpc/'' then ''tRPC''
      else if str_includes path ''/api/'' then ''API''
      else if str_includes path ''/graphql'' then ''GraphQL''
      else if str_includes path ''/rest/'' then ''REST''
      else if str_includes path ''/auth'' \<or> str_includes path ''/login'' \<or> str_includes path ''/oauth''
      then ''Authentication''
      else if str_includes path ''/user'' \<or> str_includes path ''/profile'' \<or> str_includes path ''/account''
      then ''User''
      else if str_includes path ''/post'' \<or> str_includes path ''/media'' \<or> str_includes path ''/content''
      then ''Content''
      else if str_includes path ''/feed'' \<or> str_includes path ''/timeline'' then ''Feed''
      else if str_includes path ''/like'' \<or> str_includes path ''/comment'' \<or> str_includes path ''/share''
      then ''Engagement''
      else if str_includes path ''/message'' \<or> str_includes path ''/chat'' \<or> str_includes path ''/conversation''
      then ''Messaging''
      else if str_includes path ''/payment'' \<or> str_includes path ''/subscription'' \<or> str_includes path ''/tip''
      then ''Payments''
      else if str_includes path ''/bundle'' \<or> str_includes path ''/product'' then ''Commerce''
      else if str_includes path ''/analytics'' \<or> str_includes path ''/track'' \<or> str_includes path ''/log''
      then ''Analytics''
      else if list_ex (\<lambda>ext. endsWith path (''.'' @ ext))
                [''js'', ''css'', ''png'', ''jpg'', ''jpeg'', ''gif'', ''svg'', ''woff'', ''woff2'', ''mp4'', ''webm'']
      then ''Static''
      else ''Other'')"

definition parsePayload ::
  "(string \<Rightarrow> json option) \<Rightarrow> (string \<Rightarrow> dict) \<Rightarrow> string \<Rightarrow> json"
where
  "parsePayload J Q data =
     (if data = [] then JNull
      else (case J data of
              Some v \<Rightarrow> v
            | None \<Rightarrow>
                JObject (fold (\<lambda>kv obj. Map_set (fst kv)
                                 (case J (snd kv) of Some v \<Rightarrow> v | None \<Rightarrow> JString (snd kv)) obj)
                           (Q data) [])))"

definition isBrowserInternal :: "string \<Rightarrow> bool" where
  "isBrowserInternal url = (startsWith url ''chrome-extension://'' \<or> startsWith url ''chrome://'')"

definition falsy_string :: "string option \<Rightarrow> bool" where
  \<comment> \<open>\<open>!x\<close> for a field that is \<open>null\<close> or a string\<close>
  "falsy_string x = (x = None \<or> x = Some [])"

definition ud_newEndpoint :: "requestWillBeSent \<Rightarrow> urlObj \<Rightarrow> ud_endpoint" where
  "ud_newEndpoint p u =
     \<lparr>ud_pattern = extractEndpointPattern u, ud_method = p_method p, ud_examples = [],
      ud_category = categorizeEndpoint u, ud_headers = p_headers p, ud_requestData = [],
      ud_responses = [], ud_initiators = []\<rparr>"

definition ud_recordRequest ::
  "(string \<Rightarrow> json option) \<Rightarrow> (string \<Rightarrow> dict) \<Rightarrow> requestWillBeSent \<Rightarrow> ud_endpoint \<Rightarrow> ud_endpoint"
where
  "ud_recordRequest J Q p ep =
     (let ep1 = ep\<lparr>ud_examples := Set_add (p_url p) (ud_examples ep)\<rparr>;
          ep2 = (if falsy_string (p_initiatorType p) then ep1
                 else ep1\<lparr>ud_initiators := Set_add (the (p_initiatorType p)) (ud_initiators ep1)\<rparr>)
      in if falsy_string (p_postData p) then ep2
         else ep2\<lparr>ud_requestData := ud_requestData ep2 @
                  [\<lparr>uq_timestamp = p_timestamp p, uq_requestId = p_requestId p,
                    uq_data = parsePayload J Q (the (p_postData p)),
                    uq_raw = the (p_postData p)\<rparr>]\<rparr>)"

definition captureRequest_ultimate ::
  "(string \<Rightarrow> urlObj option) \<Rightarrow> (string \<Rightarrow> json option) \<Rightarrow> (string \<Rightarrow> dict) \<Rightarrow>
   requestWillBeSent \<Rightarrow> ultimate \<Rightarrow> ultimate"
where
  "captureRequest_ultimate U J Q p s =
     (if isBrowserInternal (p_url p) then s
      else (case U (p_url p) of
              None \<Rightarrow> s
            | Some u \<Rightarrow>
                (let newDomain = (if falsy_string (ud_domain s) \<and> \<not> str_includes (p_url p) ''fvcdn.com''
                            then Some (hostname u) else ud_domain s);
                     key = endpointKey_of extractEndpointPattern (p_method p) u;
                     eps = (if \<not> Map_has key (ud_endpoints s)
                            then Map_set key (ud_newEndpoint p u) (ud_endpoints s)
                            else ud_endpoints s)
                 in \<lparr>ud_endpoints = Map_modify key (ud_recordRequest J Q p) eps,
                     ud_domain = newDomain,
                     ud_networkRequests = ud_networkRequests s @
                       [\<lparr>nr_requestId = p_requestId p, nr_timestamp = p_timestamp p,
                         nr_url = p_url p, nr_method = p_method p, nr_headers = p_headers p,
                         nr_postData = p_postData p, nr_initiatorType = p_initiatorType p\<rparr>]\<rparr>)))"

definition captureResponse_ultimate ::
  "(string \<Rightarrow> urlObj option) \<Rightarrow> responseReceived \<Rightarrow> ultimate \<Rightarrow> ultimate"
where
  "captureResponse_ultimate U r s =
     (if isBrowserInternal (r_url r) then s
      else (case U (r_url r) of
              None \<Rightarrow> s
            | Some u \<Rightarrow>
                (let key = endpointKey_of extractEndpointPattern
                             (if falsy_string (r_requestMethod r) then ''GET'' else the (r_requestMethod r)) u
                 in s\<lparr>ud_endpoints :=
                        Map_modify key
                          (\<lambda>ep. ep\<lparr>ud_responses := ud_responses ep @
                                   [\<lparr>ur_requestId = r_requestId r, ur_timestamp = r_timestamp r,
                                     ur_status = r_status r, ur_statusText = r_statusText r,
                                     ur_headers = r_headers r, ur_mimeType = r_mimeType r,
                                     ur_body = None\<rparr>]\<rparr>)
                          (ud_endpoints s)\<rparr>)))"

text \<open>
  \<open>captureResponseBody\<close> after its \<open>await\<close>. The parsed body is stored unless the
  statements that follow in the same \<open>try\<close> throw, in which case the \<open>catch\<close> stores the
  raw text: reading a property of \<open>null\<close> throws, and so does \<open>extractMediaUrls\<close> when
  \<open>processed_url\<close> or \<open>blur_preview_url\<close> is truthy and not a string.
\<close>

fun truthy :: "json \<Rightarrow> bool" where
  "truthy JNull = False"
| "truthy (JBool b) = b"
| "truthy (JNumber x) = (x \<noteq> 0)"
| "truthy (JString s) = (s \<noteq> [])"
| "truthy (JArray xs) = True"
| "truthy (JObject es) = True"

definition truthyField :: "(string \<times> json) list \<Rightarrow> string \<Rightarrow> bool" where
  "truthyField es k = (case map_of es k of None \<Rightarrow> False | Some v \<Rightarrow> truthy v)"

definition stringField :: "(string \<times> json) list \<Rightarrow> string \<Rightarrow> bool" where
  "stringField es k = (case map_of es k of Some (JString s) \<Rightarrow> True | _ \<Rightarrow> False)"

definition mediaThrows :: "json \<Rightarrow> bool" where
  "mediaThrows v =
     (case v of
        JNull \<Rightarrow> True
      | JObject es \<Rightarrow>
          (truthyField es ''processed_url'' \<and> \<not> stringField es ''processed_url'')
          \<or> (truthyField es ''blur_preview_url'' \<and> \<not> stringField es ''blur_preview_url'')
      | _ \<Rightarrow> False)"

definition storedBody :: "(string \<Rightarrow> json option) \<Rightarrow> string \<Rightarrow> body" where
  "storedBody J text =
     (case J text of
        None \<Rightarrow> BodyText text
      | Some v \<Rightarrow> if mediaThrows v then BodyText text else BodyJson v)"

definition captureResponseBody_ultimate ::
  "(string \<Rightarrow> urlObj option) \<Rightarrow> (string \<Rightarrow> json option) \<Rightarrow> loadingFinished \<Rightarrow> ultimate \<Rightarrow> ultimate"
where
  "captureResponseBody_ultimate U J l s =
     (case l_response l of
        None \<Rightarrow> s
      | Some (text, base64Encoded) \<Rightarrow>
          (if base64Encoded then s
           else (case find (\<lambda>r. nr_requestId r = l_requestId l) (ud_networkRequests s) of
                   None \<Rightarrow> s
                 | Some request \<Rightarrow>
                     (case U (nr_url request) of
                        None \<Rightarrow> s
                      | Some u \<Rightarrow>
                          s\<lparr>ud_endpoints :=
                              Map_modify (endpointKey_of extractEndpointPattern (nr_method request) u)
                                (\<lambda>ep. ep\<lparr>ud_responses :=
                                         modify_first (\<lambda>r. ur_requestId r = l_requestId l)
                                           (\<lambda>r. r\<lparr>ur_body := Some (storedBody J text)\<rparr>)
                                           (ud_responses ep)\<rparr>)
                                (ud_endpoints s)\<rparr>))))"

text \<open>
  The states the class can be in: any sequence of the three handlers from the start.
  The method of a request is an HTTP method, a token without a space.
\<close>

definition http_token :: "string \<Rightarrow> bool" where
  "http_token m = (CHR '' '' \<notin> set m)"

inductive reachable_ultimate ::
  "(string \<Rightarrow> urlObj option) \<Rightarrow> (string \<Rightarrow> json option) \<Rightarrow> (string \<Rightarrow> dict) \<Rightarrow> ultimate \<Rightarrow> bool"
  for U J Q
where
  ru_init: "reachable_ultimate U J Q ultimate_init"
| ru_request: "reachable_ultimate U J Q s \<Longrightarrow> http_token (p_method p) \<Longrightarrow>
     reachable_ultimate U J Q (captureRequest_ultimate U J Q p s)"
| ru_response: "reachable_ultimate U J Q s \<Longrightarrow> reachable_ultimate U J Q (captureResponse_ultimate U r s)"
| ru_body: "reachable_ultimate U J Q s \<Longrightarrow> reachable_ultimate U J Q (captureResponseBody_ultimate U J l s)"

subsection \<open>extractAuthFromPayload\<close>

definition authKeys :: "string list" where
  "authKeys = [''token'', ''auth'', ''csrf'', ''api_key'', ''access_token'', ''refresh_token'',
     ''session'', ''jwt'', ''bearer'', ''apikey'', ''x-auth-token'']"

text \<open>
  The closure \<open>searchObject\<close> of \<open>extractAuthFromPayload\<close>, on the entries of the object
  it is called with; \<open>authTokens\<close> is a plain object, passed in and returned.
\<close>

function searchObject_auth ::
  "(string \<times> json) list \<Rightarrow> string \<Rightarrow> (string \<times> json) list \<Rightarrow> (string \<times> json) list"
where
  "searchObject_auth [] path authTokens = authTokens"
| "searchObject_auth ((key, value) # rest) path authTokens =
     (let currentPath = (if path \<noteq> [] then path @ ''.'' @ key else key);
          authTokens1 =
            (if list_ex (\<lambda>ak. str_includes (toLowerCase key) ak) authKeys
             then Map_set currentPath value authTokens else authTokens);
          authTokens2 =
            (case value of
               JObject es \<Rightarrow> searchObject_auth es currentPath authTokens1
             | _ \<Rightarrow> authTokens1)
      in searchObject_auth rest path authTokens2)"
  by pat_completeness auto
termination
  by (relation "measure (\<lambda>(es, p, t). size_list (size_prod (\<lambda>_. 0) size) es)") auto

definition extractAuthFromPayload :: "json \<Rightarrow> (string \<times> json) list \<Rightarrow> (string \<times> json) list" where
  "extractAuthFromPayload payload authTokens =
     (case payload of
        JObject es \<Rightarrow> searchObject_auth es [] authTokens
      | JArray xs \<Rightarrow> searchObject_auth (Object_entries payload) [] authTokens
      | _ \<Rightarrow> authTokens)"

section \<open>UniversalEndpointRecon: the request listener\<close>

text \<open>
  The request listener's effect on \<open>uniqueEndpointPaths\<close> and on the \<open>pattern\<close>,
  \<open>method\<close> and \<open>examples\<close> of each endpoint. The other fields of an endpoint
  (\<open>category\<close>, \<open>headers\<close>, \<open>payloads\<close>, \<open>responses\<close>, \<open>parameters\<close>, \<open>isAPI\<close>) are
  written and never read by the listeners; they are left out, and with them the response
  listener, which only appends to \<open>responses\<close>. \<open>domain\<close> is set by \<open>discoverEndpoints\<close>.
\<close>

record un_endpoint =
  un_pattern :: string
  un_method :: string
  un_examples :: "string list"

record universal =
  un_endpoints :: "(string \<times> un_endpoint) list"
  un_uniqueEndpointPaths :: "string list"
  un_domain :: "string option"

definition universal_init :: universal where
  "universal_init = \<lparr>un_endpoints = [], un_uniqueEndpointPaths = [], un_domain = None\<rparr>"

definition isTargetDomain :: "string \<Rightarrow> string \<Rightarrow> bool" where
  "isTargetDomain target host =
     (host = target \<or> endsWith host (''.'' @ target) \<or> endsWith target (''.'' @ host))"

definition onRequest_universal ::
  "(string \<Rightarrow> urlObj option) \<Rightarrow> string \<Rightarrow> string \<Rightarrow> universal \<Rightarrow> universal"
where
  "onRequest_universal U url method s =
     (if isBrowserInternal url then s
      else (case U url of
              None \<Rightarrow> s
            | Some u \<Rightarrow>
                (if \<not> falsy_string (un_domain s) \<and> \<not> isTargetDomain (the (un_domain s)) (hostname u)
                 then s
                 else (let key = endpointKey_of extractEndpointPattern_universal method u in
                       if key \<notin> set (un_uniqueEndpointPaths s)
                       then s\<lparr>un_uniqueEndpointPaths := un_uniqueEndpointPaths s @ [key],
                               un_endpoints :=
                                 Map_set key
                                   \<lparr>un_pattern = extractEndpointPattern_universal u,
                                    un_method = method, un_examples = [url]\<rparr>
                                   (un_endpoints s)\<rparr>
                       else s\<lparr>un_endpoints :=
                                Map_modify key
                                  (\<lambda>ep. ep\<lparr>un_examples := Set_add url (un_examples ep)\<rparr>)
                                  (un_endpoints s)\<rparr>))))"

definition discoverEndpoints_domain :: "(string \<Rightarrow> urlObj option) \<Rightarrow> string \<Rightarrow> universal \<Rightarrow> universal" where
  \<comment> \<open>\<open>this.domain = new URL(startUrl).hostname\<close>; the call fails where \<open>new URL\<close> throws\<close>
  "discoverEndpoints_domain U startUrl s =
     (case U startUrl of None \<Rightarrow> s | Some u \<Rightarrow> s\<lparr>un_domain := Some (hostname u)\<rparr>)"

inductive reachable_universal :: "(string \<Rightarrow> urlObj option) \<Rightarrow> universal \<Rightarrow> bool"
  for U
where
  rv_init: "reachable_universal U universal_init"
| rv_request: "reachable_universal U s \<Longrightarrow> http_token method \<Longrightarrow>
     reachable_universal U (onRequest_universal U url method s)"
| rv_domain: "reachable_universal U s \<Longrightarrow> reachable_universal U (discoverEndpoints_domain U startUrl s)"

section \<open>Notions used to state the properties\<close>

subsection \<open>The examples of a key\<close>

text \<open>
  A request lands on key \<open>k\<close> when the handler does not skip it and computes \<open>k\<close> for it;
  the examples of \<open>k\<close> are those of its endpoint, none when the Map has no such key.
\<close>

definition lands_ultimate :: "(string \<Rightarrow> urlObj option) \<Rightarrow> requestWillBeSent \<Rightarrow> string \<Rightarrow> bool" where
  "lands_ultimate U p k =
     (\<not> isBrowserInternal (p_url p) \<and>
      (case U (p_url p) of None \<Rightarrow> False
       | Some u \<Rightarrow> endpointKey_of extractEndpointPattern (p_method p) u = k))"

definition examples_ultimate :: "string \<Rightarrow> ultimate \<Rightarrow> string list" where
  "examples_ultimate k s = (case Map_get k (ud_endpoints s) of None \<Rightarrow> [] | Some e \<Rightarrow> ud_examples e)"

definition lands_universal :: "(string \<Rightarrow> urlObj option) \<Rightarrow> string \<times> string \<Rightarrow> string \<Rightarrow> bool" where
  "lands_universal U um k =
     (\<not> isBrowserInternal (fst um) \<and>
      (case U (fst um) of None \<Rightarrow> False
       | Some u \<Rightarrow> endpointKey_of extractEndpointPattern_universal (snd um) u = k))"

definition examples_universal :: "string \<Rightarrow> universal \<Rightarrow> string list" where
  "examples_universal k s = (case Map_get k (un_endpoints s) of None \<Rightarrow> [] | Some e \<Rightarrow> un_examples e)"

text \<open>Before \<open>discoverEndpoints\<close> sets a domain, the Set of keys and the Map agree.\<close>

definition consistent_universal :: "universal \<Rightarrow> bool" where
  "consistent_universal s = (un_domain s = None \<and> set (un_uniqueEndpointPaths s) = fst ` set (un_endpoints s))"

text \<open>Requests for \<open>https://x.com/api/users/n\<close>.\<close>

definition user_req :: "nat \<Rightarrow> requestWillBeSent" where
  "user_req n = req1\<lparr>p_requestId := decimal n, p_url := ''https://x.com/api/users/'' @ decimal n\<rparr>"

definition user_url :: "nat \<Rightarrow> string \<times> string" where
  "user_url n = (''https://x.com/api/users/'' @ decimal n, ''GET'')"

definition ultimate_two :: ultimate where
  "ultimate_two =
     fold (captureRequest_ultimate URL_simple JSON_none (\<lambda>d. [])) [user_req 123, user_req 456] ultimate_init"

definition universal_two :: universal where
  "universal_two =
     fold (\<lambda>um. onRequest_universal URL_simple (fst um) (snd um)) [user_url 123, user_url 456] universal_init"

subsection \<open>Round trip\<close>

text \<open>
  A record with method \<open>m\<close>, pattern \<open>pat\<close> and examples \<open>exs\<close>, stored under key \<open>k\<close>,
  is consistent when \<open>k\<close> is \<open>m\<close>, a space and \<open>pat\<close>, and every example parses and
  templates, with \<open>m\<close>, to \<open>k\<close>.
\<close>

definition record_ok ::
  "(urlObj \<Rightarrow> string) \<Rightarrow> (string \<Rightarrow> urlObj option) \<Rightarrow> string \<Rightarrow> string \<Rightarrow> string \<Rightarrow> string list \<Rightarrow> bool"
where
  "record_ok T U k m pat exs =
     (k = m @ '' '' @ pat \<and>
      (\<forall>url\<in>set exs. case U url of None \<Rightarrow> False | Some u \<Rightarrow> endpointKey_of T m u = k))"

definition roundtrip_ultimate :: "(string \<Rightarrow> urlObj option) \<Rightarrow> ultimate \<Rightarrow> bool" where
  "roundtrip_ultimate U s =
     (\<forall>ke\<in>set (ud_endpoints s).
        record_ok extractEndpointPattern U (fst ke)
          (ud_method (snd ke)) (ud_pattern (snd ke)) (ud_examples (snd ke)))"

definition roundtrip_universal :: "(string \<Rightarrow> urlObj option) \<Rightarrow> universal \<Rightarrow> bool" where
  "roundtrip_universal U s =
     (\<forall>ke\<in>set (un_endpoints s).
        record_ok extractEndpointPattern_universal U (fst ke)
          (un_method (snd ke)) (un_pattern (snd ke)) (un_examples (snd ke)))"

definition ud_ok :: "(string \<Rightarrow> urlObj option) \<Rightarrow> string \<Rightarrow> ud_endpoint \<Rightarrow> bool" where
  "ud_ok U k e = (http_token (ud_method e) \<and>
     record_ok extractEndpointPattern U k (ud_method e) (ud_pattern e) (ud_examples e))"

definition un_ok :: "(string \<Rightarrow> urlObj option) \<Rightarrow> string \<Rightarrow> un_endpoint \<Rightarrow> bool" where
  "un_ok U k e = (http_token (un_method e) \<and>
     record_ok extractEndpointPattern_universal U k (un_method e) (un_pattern e) (un_examples e))"

subsection \<open>Nested payloads\<close>

text \<open>The entries \<open>es\<close> wrapped in \<open>n\<close> objects, each under the key \<open>a\<close>.\<close>

fun nest :: "nat \<Rightarrow> (string \<times> json) list \<Rightarrow> (string \<times> json) list" where
  "nest 0 es = es"
| "nest (Suc n) es = [(''a'', JObject (nest n es))]"

definition is_token_key :: "string \<Rightarrow> bool" where
  "is_token_key key = list_ex (\<lambda>tk. str_includes (toLowerCase key) tk) tokenKeys"

definition is_auth_key :: "string \<Rightarrow> bool" where
  "is_auth_key key = list_ex (\<lambda>ak. str_includes (toLowerCase key) ak) authKeys"

definition deep_payload :: json where
  "deep_payload = JObject (nest 11 [(''token'', JString ''abcdefghijklmnopqrstuvwxyz'')])"

subsection \<open>The event stream of CaptureEverythingRecon\<close>

text \<open>
  One CDP event with what its handler reads besides the state: the time at which a
  \<open>requestWillBeSent\<close> or \<open>responseReceived\<close> event is handled travels with the event.
\<close>

datatype event =
    RequestWillBeSent string requestWillBeSent
  | RequestWillBeSentExtraInfo requestWillBeSentExtraInfo
  | ResponseReceived string responseReceived
  | ResponseReceivedExtraInfo responseReceivedExtraInfo
  | LoadingFinished loadingFinished

fun event_id :: "event \<Rightarrow> string" where
  "event_id (RequestWillBeSent now p) = p_requestId p"
| "event_id (RequestWillBeSentExtraInfo x) = x_requestId x"
| "event_id (ResponseReceived now r) = r_requestId r"
| "event_id (ResponseReceivedExtraInfo y) = y_requestId y"
| "event_id (LoadingFinished l) = l_requestId l"

fun ingest ::
  "(string \<Rightarrow> urlObj option) \<Rightarrow> (string \<Rightarrow> json option) \<Rightarrow> (json \<Rightarrow> json) \<Rightarrow> event \<Rightarrow> recon \<Rightarrow> recon"
where
  "ingest U J P (RequestWillBeSent now p) s = captureRequest U J now p s"
| "ingest U J P (RequestWillBeSentExtraInfo x) s = captureRequestHeaders x s"
| "ingest U J P (ResponseReceived now r) s = captureResponse now r s"
| "ingest U J P (ResponseReceivedExtraInfo y) s = captureResponseHeaders y s"
| "ingest U J P (LoadingFinished l) s = captureResponseBody J P l s"

text \<open>The key under which \<open>captureRequest\<close> files an event, if it does not skip it.\<close>

fun request_key :: "(string \<Rightarrow> urlObj option) \<Rightarrow> event \<Rightarrow> string option" where
  "request_key U (RequestWillBeSent now p) =
     (if p_type p \<noteq> ''Fetch'' \<and> p_type p \<noteq> ''XHR'' then None
      else if \<not> startsWith (p_url p) ''http'' then None
      else (case U (p_url p) of None \<Rightarrow> None | Some u \<Rightarrow> Some (endpointKey p u)))"
| "request_key U _ = None"

definition request_keys :: "(string \<Rightarrow> urlObj option) \<Rightarrow> event list \<Rightarrow> string set" where
  "request_keys U evs = set (List.map_filter (request_key U) evs)"

text \<open>The request ids an endpoint holds, in its requests and in its responses.\<close>

definition ids :: "endpoint \<Rightarrow> string set" where
  "ids ep = set (map rq_requestId (ep_requests ep)) \<union> set (map rs_requestId (ep_responses ep))"

text \<open>
  Every entry belongs to one of two exchanges: its key is among the keys \<open>KA\<close> of the
  first and it holds no id but \<open>a\<close>, or likewise for \<open>KB\<close> and \<open>b\<close>.
\<close>

definition separated ::
  "string set \<Rightarrow> string \<Rightarrow> string set \<Rightarrow> string \<Rightarrow> (string \<times> endpoint) list \<Rightarrow> bool"
where
  "separated KA a KB b eps =
     (\<forall>ke\<in>set eps. (fst ke \<in> KA \<and> ids (snd ke) \<subseteq> {a}) \<or> (fst ke \<in> KB \<and> ids (snd ke) \<subseteq> {b}))"

definition restrict_keys :: "string set \<Rightarrow> (string \<times> endpoint) list \<Rightarrow> (string \<times> endpoint) list" where
  "restrict_keys K eps = filter (\<lambda>ke. fst ke \<in> K) eps"

definition ingest_eps ::
  "(string \<Rightarrow> urlObj option) \<Rightarrow> (string \<Rightarrow> json option) \<Rightarrow> (json \<Rightarrow> json) \<Rightarrow> event \<Rightarrow>
   (string \<times> endpoint) list \<Rightarrow> (string \<times> endpoint) list"
where
  "ingest_eps U J P ev eps = endpoints (ingest U J P ev \<lparr>endpoints = eps, domain = None\<rparr>)"

text \<open>
  The two ways a handler changes the Map: \<open>captureRequest\<close> files a request under its
  key, creating the entry when the key is new; an enrichment handler changes the first
  entry that holds the request id.
\<close>

definition file_under :: "string \<Rightarrow> endpoint \<Rightarrow> (endpoint \<Rightarrow> endpoint) \<Rightarrow> (string \<times> endpoint) list \<Rightarrow> (string \<times> endpoint) list" where
  "file_under k new f eps = Map_modify k f (if \<not> Map_has k eps then Map_set k new eps else eps)"

definition file_like :: "string \<Rightarrow> string \<Rightarrow> ((string \<times> endpoint) list \<Rightarrow> (string \<times> endpoint) list) \<Rightarrow> bool" where
  "file_like i k G = (\<exists>new f. (\<forall>eps. G eps = file_under k new f eps)
         \<and> ids new = {} \<and> (\<forall>e. ids (f e) \<subseteq> insert i (ids e)))"

definition enrich_like :: "string \<Rightarrow> ((string \<times> endpoint) list \<Rightarrow> (string \<times> endpoint) list) \<Rightarrow> bool" where
  "enrich_like i G = (\<exists>Q f. (\<forall>eps. G eps = forFirstEndpoint Q f eps)
         \<and> (\<forall>e. Q e \<longrightarrow> i \<in> ids e) \<and> (\<forall>e. ids (f e) \<subseteq> insert i (ids e)))"

text \<open>
  The five events of one exchange (request, extra request headers, response, extra
  response headers, body) for a request id and a URL, and a run from the empty state.
\<close>

definition exchange :: "string \<Rightarrow> string \<Rightarrow> event list" where
  "exchange rid url =
     [RequestWillBeSent ''t0'' (req1\<lparr>p_requestId := rid, p_url := url\<rparr>),
      RequestWillBeSentExtraInfo (extra_for rid),
      ResponseReceived ''t1'' (resp_for rid),
      ResponseReceivedExtraInfo (rextra_for rid),
      LoadingFinished (body_for rid)]"

definition run :: "event list \<Rightarrow> recon" where
  "run evs = fold (ingest URL_simple JSON_none (\<lambda>v. JNull)) evs recon_init"

subsection \<open>The entries that a credential walk visits\<close>

text \<open>
  A \<open>JObject\<close> lists its entries in the order in which \<open>Object.entries\<close> enumerates
  them. Both walks visit the entries of the object they are given and, right after an
  entry whose value is an object that is not an array, the entries of that value, under
  the path extended by the key. \<open>visited\<close> lists the visited entries in order, each with
  the path at its level; \<open>visits\<close> says the same without an order: an entry is visited
  when a chain of entries with object values leads from the root to it.
\<close>

function visited ::
  "(string \<Rightarrow> string \<Rightarrow> string) \<Rightarrow> (string \<times> json) list \<Rightarrow> string \<Rightarrow> (string \<times> string \<times> json) list"
where
  "visited ext [] path = []"
| "visited ext ((key, value) # rest) path =
     (path, key, value)
       # (case value of JObject es \<Rightarrow> visited ext es (ext path key) | _ \<Rightarrow> [])
       @ visited ext rest path"
  by pat_completeness auto
termination
  by (relation "measure (\<lambda>(e, es, p). size_list (size_prod (\<lambda>_. 0) size) es)") auto

inductive visits ::
  "(string \<Rightarrow> string \<Rightarrow> string) \<Rightarrow> (string \<times> json) list \<Rightarrow> string \<Rightarrow> string \<times> string \<times> json \<Rightarrow> bool"
  for ext
where
  here: "(key, value) \<in> set es \<Longrightarrow> visits ext es path (path, key, value)"
| below: "(key, JObject es') \<in> set es \<Longrightarrow> visits ext es' (ext path key) x \<Longrightarrow> visits ext es path x"

definition ext_payload :: "string \<Rightarrow> string \<Rightarrow> string" where
  \<comment> \<open>\<open>`${path}${key}.`\<close> (CaptureEverythingRecon)\<close>
  "ext_payload path key = path @ key @ ''.''"

definition currentPath_of :: "string \<Rightarrow> string \<Rightarrow> string" where
  \<comment> \<open>\<open>path ? `${path}.${key}` : key\<close> (UltimateDevToolsRecon)\<close>
  "currentPath_of path key = (if path \<noteq> [] then path @ ''.'' @ key else key)"

text \<open>What one visited entry makes each walk store.\<close>

definition token_fragment :: "string \<times> string \<times> json \<Rightarrow> string option" where
  "token_fragment x =
     (case snd (snd x) of
        JString s \<Rightarrow>
          (if is_token_key (fst (snd x))
           then Some (''payload.'' @ fst x @ fst (snd x) @ ''='' @ take 30 s @ ''...'')
           else None)
      | _ \<Rightarrow> None)"

definition auth_store :: "string \<times> string \<times> json \<Rightarrow> (string \<times> json) list \<Rightarrow> (string \<times> json) list" where
  "auth_store x authTokens =
     (if is_auth_key (fst (snd x))
      then Map_set (currentPath_of (fst x) (fst (snd x))) (snd (snd x)) authTokens
      else authTokens)"

subsection \<open>The walks on a call stack\<close>

text \<open>
  \<open>searchObject\<close> calls itself once per level of nesting, so a walk needs as many
  activations on the JavaScript call stack as the payload has levels. \<open>frames\<close> is the
  number of activations of \<open>searchObject\<close> that the stack has room for when the
  extractor calls it, an activation counted with the calls that it makes itself. An
  activation that cannot be entered throws \<open>RangeError\<close>; nothing in the walk catches
  it, so it leaves the walk with the token Set (or \<open>authTokens\<close>) as it then is. The
  handlers above use the walks \<open>searchObject\<close> and \<open>searchObject_auth\<close>, which always
  return: they describe the handlers for payloads that the stack holds.
\<close>

datatype 'a outcome = Returns 'a | RangeError 'a

fun threw :: "'a outcome \<Rightarrow> bool" where
  "threw (Returns a) = False"
| "threw (RangeError a) = True"

fun searchObject_stack ::
  "nat \<Rightarrow> (string \<times> json) list \<Rightarrow> string \<Rightarrow> string list \<Rightarrow> string list outcome"
where
  "searchObject_stack 0 es path toks = RangeError toks"
| "searchObject_stack (Suc frames) [] path toks = Returns toks"
| "searchObject_stack (Suc frames) ((key, value) # rest) path toks =
     (let toks1 =
            (case value of
               JString s \<Rightarrow>
                 (if list_ex (\<lambda>tk. str_includes (toLowerCase key) tk) tokenKeys
                  then Set_add (''payload.'' @ path @ key @ ''='' @ substring0 30 s @ ''...'') toks
                  else toks)
             | _ \<Rightarrow> toks)
      in (case value of
            JObject es \<Rightarrow>
              (case searchObject_stack frames es (path @ key @ ''.'') toks1 of
                 RangeError toks2 \<Rightarrow> RangeError toks2
               | Returns toks2 \<Rightarrow> searchObject_stack (Suc frames) rest path toks2)
          | _ \<Rightarrow> searchObject_stack (Suc frames) rest path toks1))"

definition extractTokensFromPayload_stack :: "nat \<Rightarrow> json \<Rightarrow> endpoint \<Rightarrow> endpoint outcome" where
  "extractTokensFromPayload_stack frames payload ep =
     (case payload of
        JObject es \<Rightarrow>
          (case searchObject_stack frames es [] (ep_tokens ep) of
             Returns toks \<Rightarrow> Returns (ep\<lparr>ep_tokens := toks\<rparr>)
           | RangeError toks \<Rightarrow> RangeError (ep\<lparr>ep_tokens := toks\<rparr>))
      | JArray xs \<Rightarrow>
          (case searchObject_stack frames (Object_entries payload) [] (ep_tokens ep) of
             Returns toks \<Rightarrow> Returns (ep\<lparr>ep_tokens := toks\<rparr>)
           | RangeError toks \<Rightarrow> RangeError (ep\<lparr>ep_tokens := toks\<rparr>))
      | _ \<Rightarrow> Returns ep)"

fun searchObject_auth_stack ::
  "nat \<Rightarrow> (string \<times> json) list \<Rightarrow> string \<Rightarrow> (string \<times> json) list \<Rightarrow> (string \<times> json) list outcome"
where
  "searchObject_auth_stack 0 es path authTokens = RangeError authTokens"
| "searchObject_auth_stack (Suc frames) [] path authTokens = Returns authTokens"
| "searchObject_auth_stack (Suc frames) ((key, value) # rest) path authTokens =
     (let currentPath = (if path \<noteq> [] then path @ ''.'' @ key else key);
          authTokens1 =
            (if list_ex (\<lambda>ak. str_includes (toLowerCase key) ak) authKeys
             then Map_set currentPath value authTokens else authTokens)
      in (case value of
            JObject es \<Rightarrow>
              (case searchObject_auth_stack frames es currentPath authTokens1 of
                 RangeError authTokens2 \<Rightarrow> RangeError authTokens2
               | Returns authTokens2 \<Rightarrow> searchObject_auth_stack (Suc frames) rest path authTokens2)
          | _ \<Rightarrow> searchObject_auth_stack (Suc frames) rest path authTokens1))"

definition extractAuthFromPayload_stack ::
  "nat \<Rightarrow> json \<Rightarrow> (string \<times> json) list \<Rightarrow> (string \<times> json) list outcome"
where
  "extractAuthFromPayload_stack frames payload authTokens =
     (case payload of
        JObject es \<Rightarrow> searchObject_auth_stack frames es [] authTokens
      | JArray xs \<Rightarrow> searchObject_auth_stack frames (Object_entries payload) [] authTokens
      | _ \<Rightarrow> Returns authTokens)"

text \<open>
  The activations that a walk of the entries \<open>es\<close> needs: one for \<open>es\<close> itself and,
  below it, those of the most deeply nested value that is an object and not an array.
  A payload that is not an object is not walked.
\<close>

function frames_needed :: "(string \<times> json) list \<Rightarrow> nat" where
  "frames_needed [] = 1"
| "frames_needed ((key, value) # rest) =
     max (case value of JObject es \<Rightarrow> Suc (frames_needed es) | _ \<Rightarrow> 1) (frames_needed rest)"
  by pat_completeness auto
termination
  by (relation "measure (\<lambda>es. size_list (size_prod (\<lambda>_. 0) size) es)") auto

definition stack_needed :: "json \<Rightarrow> nat" where
  "stack_needed payload =
     (case payload of
        JObject es \<Rightarrow> frames_needed es
      | JArray xs \<Rightarrow> frames_needed (Object_entries payload)
      | _ \<Rightarrow> 0)"


definition mixed_payload :: json where
  "mixed_payload =
     JObject [(''id'', JNumber 123),
              (''token'', JString ''abcdefghijklmnopqrstuvwxyz''),
              (''user'', JObject [(''access_token'', JString ''0123456789''), (''name'', JString ''joe'')]),
              (''items'', JArray [JObject [(''api_key'', JString ''k-1'')]])]"

subsection \<open>When an enrichment event finds its exchange\<close>








section \<open>Properties of CaptureEverythingRecon\<close>

subsection \<open>Auxiliary facts\<close>

lemma modify_first_none: "\<forall>x\<in>set xs. \<not> P x \<Longrightarrow> modify_first P f xs = xs"
  by (induction xs) auto

lemma forFirstEndpoint_none:
  "\<forall>ke\<in>set eps. \<not> P (snd ke) \<Longrightarrow> forFirstEndpoint P f eps = eps"
  by (simp add: forFirstEndpoint_def modify_first_none)




lemma keys_Map_set: "fst ` set (Map_set k v m) = insert k (fst ` set m)"
  by (induction m) auto











lemma set_fold_Set_add: "set (fold Set_add xs t) = set t \<union> set xs"
  by (induction xs arbitrary: t) (auto simp: Set_add_def)

















section \<open>Properties of the catalogs keyed by template\<close>

subsection \<open>Auxiliary facts\<close>

lemma map_of_Map_set: "map_of (Map_set k v m) = (map_of m)(k \<mapsto> v)"
  by (induction m) (auto simp: fun_eq_iff)

lemma map_of_Map_modify:
  "map_of (Map_modify k f m) k' = (if k' = k then map_option f (map_of m k) else map_of m k')"
  by (induction m) auto

lemma set_Map_set: "set (Map_set k v m) \<subseteq> insert (k, v) (set m)"
  by (induction m) auto

lemma set_Map_modify: "x \<in> set (Map_modify k f m) \<Longrightarrow> x \<in> set m \<or> (\<exists>e. (k, e) \<in> set m \<and> x = (k, f e))"
  by (induction m) (auto split: if_splits)

lemma fold_Set_add_distinct: "distinct (ys @ xs) \<Longrightarrow> fold Set_add xs ys = ys @ xs"
  by (induction xs arbitrary: ys) (auto simp: Set_add_def)

lemma ud_examples_recordRequest: "ud_examples (ud_recordRequest J Q p ep) = Set_add (p_url p) (ud_examples ep)"
  by (simp add: ud_recordRequest_def Let_def)

lemma examples_ultimate_step:
  assumes "lands_ultimate U p k"
  shows "examples_ultimate k (captureRequest_ultimate U J Q p s) = Set_add (p_url p) (examples_ultimate k s)"
proof -
  from assms obtain u where u: "U (p_url p) = Some u" "endpointKey_of extractEndpointPattern (p_method p) u = k"
    and nb: "\<not> isBrowserInternal (p_url p)"
    by (auto simp: lands_ultimate_def split: option.splits)
  show ?thesis
    using u nb
    by (cases "map_of (ud_endpoints s) k")
       (simp_all add: captureRequest_ultimate_def examples_ultimate_def Map_get_def Map_has_def Let_def
          map_of_Map_modify map_of_Map_set ud_examples_recordRequest ud_newEndpoint_def)
qed

lemma examples_ultimate_fold:
  "\<forall>p\<in>set ps. lands_ultimate U p k \<Longrightarrow>
   examples_ultimate k (fold (captureRequest_ultimate U J Q) ps s) = fold Set_add (map p_url ps) (examples_ultimate k s)"
  by (induction ps arbitrary: s) (simp_all add: examples_ultimate_step)

lemma keys_Map_modify: "fst ` set (Map_modify k f m) = fst ` set m"
  by (induction m) auto

lemma map_of_None_iff: "map_of m k = None \<longleftrightarrow> k \<notin> fst ` set m"
  by (simp add: map_of_eq_None_iff)

lemma examples_universal_step:
  assumes "lands_universal U um k" and "consistent_universal s"
  shows "examples_universal k (onRequest_universal U (fst um) (snd um) s) = Set_add (fst um) (examples_universal k s)
       \<and> consistent_universal (onRequest_universal U (fst um) (snd um) s)"
proof -
  from assms obtain u where u: "U (fst um) = Some u" "endpointKey_of extractEndpointPattern_universal (snd um) u = k"
    and nb: "\<not> isBrowserInternal (fst um)"
    by (auto simp: lands_universal_def split: option.splits)
  have d: "un_domain s = None" and c: "set (un_uniqueEndpointPaths s) = fst ` set (un_endpoints s)"
    using assms(2) by (simp_all add: consistent_universal_def)
  show ?thesis
  proof (cases "map_of (un_endpoints s) k")
    case None
    then have "k \<notin> set (un_uniqueEndpointPaths s)" using c by (simp add: map_of_None_iff)
    then show ?thesis using u nb d c None
      by (simp add: onRequest_universal_def examples_universal_def Map_get_def Let_def falsy_string_def
          map_of_Map_set consistent_universal_def keys_Map_set Set_add_def)
  next
    case (Some e)
    then have "k \<in> set (un_uniqueEndpointPaths s)" using c map_of_None_iff[of "un_endpoints s" k] by simp
    then show ?thesis using u nb d c Some
      by (simp add: onRequest_universal_def examples_universal_def Map_get_def Let_def falsy_string_def
          map_of_Map_modify consistent_universal_def keys_Map_modify)
  qed
qed

lemma examples_universal_fold:
  "\<forall>um\<in>set ums. lands_universal U um k \<Longrightarrow> consistent_universal s \<Longrightarrow>
   examples_universal k (fold (\<lambda>um. onRequest_universal U (fst um) (snd um)) ums s)
     = fold Set_add (map fst ums) (examples_universal k s)"
proof (induction ums arbitrary: s)
  case Nil
  then show ?case by simp
next
  case (Cons um ums)
  then show ?case using examples_universal_step[of U um k s] by simp
qed

lemma token_split:
  "a @ CHR '' '' # x = b @ CHR '' '' # y \<Longrightarrow> http_token a \<Longrightarrow> http_token b \<Longrightarrow> a = b \<and> x = y"
proof (induction a arbitrary: b)
  case Nil
  then show ?case by (cases b) (auto simp: http_token_def)
next
  case (Cons c a)
  then show ?case by (cases b) (auto simp: http_token_def)
qed

lemma all_Map_set:
  assumes "\<forall>ke\<in>set m. G (fst ke) (snd ke)" and "G k v"
  shows "\<forall>ke\<in>set (Map_set k v m). G (fst ke) (snd ke)"
proof
  fix ke assume "ke \<in> set (Map_set k v m)"
  then have "ke = (k, v) \<or> ke \<in> set m" using set_Map_set[of k v m] by blast
  then show "G (fst ke) (snd ke)" using assms by (elim disjE) simp_all
qed

lemma all_Map_modify:
  assumes "\<forall>ke\<in>set m. G (fst ke) (snd ke)" and "\<And>e. G k e \<Longrightarrow> G k (f e)"
  shows "\<forall>ke\<in>set (Map_modify k f m). G (fst ke) (snd ke)"
proof
  fix ke assume "ke \<in> set (Map_modify k f m)"
  then consider "ke \<in> set m" | e where "(k, e) \<in> set m" "ke = (k, f e)"
    using set_Map_modify[of ke k f m] by blast
  then show "G (fst ke) (snd ke)"
  proof cases
    case 1
    then show ?thesis using assms(1) by simp
  next
    case 2
    have "G (fst (k, e)) (snd (k, e))" using assms(1) 2(1) by blast
    then show ?thesis using assms(2) 2(2) by simp
  qed
qed

lemma set_Set_add: "set (Set_add x xs) = insert x (set xs)"
  by (auto simp: Set_add_def)

lemma record_ok_add:
  assumes ok: "record_ok T U (endpointKey_of T m' u) m pat exs"
    and tok: "http_token m" "http_token m'"
    and u: "U url = Some u"
  shows "record_ok T U (endpointKey_of T m' u) m pat (Set_add url exs)"
proof -
  have eq: "m' @ CHR '' '' # T u = m @ CHR '' '' # pat"
    using ok by (simp add: record_ok_def endpointKey_of_def)
  have meq: "m' = m" using token_split[OF eq tok(2) tok(1)] by simp
  have "endpointKey_of T m u = endpointKey_of T m' u" by (simp add: meq)
  then have new: "case U url of None \<Rightarrow> False | Some v \<Rightarrow> endpointKey_of T m v = endpointKey_of T m' u"
    by (simp add: u)
  show ?thesis
    unfolding record_ok_def set_Set_add
    using ok new by (simp add: record_ok_def)
qed

lemma record_ok_new: "record_ok T U (endpointKey_of T m u) m (T u) []"
  by (simp add: record_ok_def endpointKey_of_def)

lemma record_ok_first:
  "U url = Some u \<Longrightarrow> record_ok T U (endpointKey_of T m u) m (T u) [url]"
  by (simp add: record_ok_def endpointKey_of_def)

lemma ud_ok_request:
  assumes inv: "\<forall>ke\<in>set (ud_endpoints s). ud_ok U (fst ke) (snd ke)" and tok: "http_token (p_method p)"
  shows "\<forall>ke\<in>set (ud_endpoints (captureRequest_ultimate U J Q p s)). ud_ok U (fst ke) (snd ke)"
proof (cases "isBrowserInternal (p_url p)")
  case True
  then show ?thesis using inv by (simp add: captureRequest_ultimate_def)
next
  case nb: False
  show ?thesis
  proof (cases "U (p_url p)")
    case None
    then show ?thesis using inv nb by (simp add: captureRequest_ultimate_def)
  next
    case (Some u)
    define k where "k = endpointKey_of extractEndpointPattern (p_method p) u"
    define eps where "eps = (if \<not> Map_has k (ud_endpoints s)
                             then Map_set k (ud_newEndpoint p u) (ud_endpoints s) else ud_endpoints s)"
    have new: "ud_ok U k (ud_newEndpoint p u)"
      using tok record_ok_new[of extractEndpointPattern U "p_method p" u]
      by (simp add: ud_ok_def ud_newEndpoint_def k_def)
    have eps: "\<forall>ke\<in>set eps. ud_ok U (fst ke) (snd ke)"
      unfolding eps_def using all_Map_set[of "ud_endpoints s" "ud_ok U" k, OF inv new] inv
      by (cases "Map_has k (ud_endpoints s)") simp_all
    have step: "ud_ok U k (ud_recordRequest J Q p e)" if e: "ud_ok U k e" for e
    proof -
      have m: "ud_method (ud_recordRequest J Q p e) = ud_method e"
        "ud_pattern (ud_recordRequest J Q p e) = ud_pattern e"
        "ud_examples (ud_recordRequest J Q p e) = Set_add (p_url p) (ud_examples e)"
        by (simp_all add: ud_recordRequest_def Let_def)
      have "record_ok extractEndpointPattern U k (ud_method e) (ud_pattern e) (Set_add (p_url p) (ud_examples e))"
        unfolding k_def
        by (rule record_ok_add) (use e tok Some in \<open>simp_all add: ud_ok_def k_def\<close>)
      then show ?thesis using e by (simp add: ud_ok_def m)
    qed
    have "\<forall>ke\<in>set (Map_modify k (ud_recordRequest J Q p) eps). ud_ok U (fst ke) (snd ke)"
      by (rule all_Map_modify[OF eps step])
    moreover have "ud_endpoints (captureRequest_ultimate U J Q p s) = Map_modify k (ud_recordRequest J Q p) eps"
      using Some nb by (simp add: captureRequest_ultimate_def Let_def k_def eps_def)
    ultimately show ?thesis by simp
  qed
qed

lemma ud_ok_modify_responses:
  assumes "\<forall>ke\<in>set eps. ud_ok U (fst ke) (snd ke)"
  shows "\<forall>ke\<in>set (Map_modify k (\<lambda>ep. ep\<lparr>ud_responses := g ep\<rparr>) eps). ud_ok U (fst ke) (snd ke)"
  by (rule all_Map_modify[OF assms]) (simp add: ud_ok_def)

lemma ud_ok_response:
  assumes "\<forall>ke\<in>set (ud_endpoints s). ud_ok U (fst ke) (snd ke)"
  shows "\<forall>ke\<in>set (ud_endpoints (captureResponse_ultimate U r s)). ud_ok U (fst ke) (snd ke)"
proof (cases "isBrowserInternal (r_url r) \<or> U (r_url r) = None")
  case True
  then show ?thesis using assms by (auto simp: captureResponse_ultimate_def)
next
  case False
  then obtain u where "U (r_url r) = Some u" "\<not> isBrowserInternal (r_url r)" by auto
  then show ?thesis
    using ud_ok_modify_responses[OF assms]
    by (simp add: captureResponse_ultimate_def Let_def)
qed

lemma ud_ok_body:
  assumes "\<forall>ke\<in>set (ud_endpoints s). ud_ok U (fst ke) (snd ke)"
  shows "\<forall>ke\<in>set (ud_endpoints (captureResponseBody_ultimate U J l s)). ud_ok U (fst ke) (snd ke)"
proof -
  have "ud_endpoints (captureResponseBody_ultimate U J l s) = ud_endpoints s
        \<or> (\<exists>k g. ud_endpoints (captureResponseBody_ultimate U J l s)
                   = Map_modify k (\<lambda>ep. ep\<lparr>ud_responses := g ep\<rparr>) (ud_endpoints s))"
    by (auto simp: captureResponseBody_ultimate_def split: option.splits prod.splits)
  then show ?thesis
  proof
    assume "ud_endpoints (captureResponseBody_ultimate U J l s) = ud_endpoints s"
    then show ?thesis using assms by simp
  next
    assume "\<exists>k g. ud_endpoints (captureResponseBody_ultimate U J l s)
                   = Map_modify k (\<lambda>ep. ep\<lparr>ud_responses := g ep\<rparr>) (ud_endpoints s)"
    then obtain k g where "ud_endpoints (captureResponseBody_ultimate U J l s)
                   = Map_modify k (\<lambda>ep. ep\<lparr>ud_responses := g ep\<rparr>) (ud_endpoints s)" by blast
    then show ?thesis using ud_ok_modify_responses[OF assms, of k g] by simp
  qed
qed

lemma ud_ok_reachable:
  "reachable_ultimate U J Q s \<Longrightarrow> \<forall>ke\<in>set (ud_endpoints s). ud_ok U (fst ke) (snd ke)"
proof (induction rule: reachable_ultimate.induct)
  case ru_init
  then show ?case by (simp add: ultimate_init_def)
next
  case (ru_request s p)
  then show ?case by (simp add: ud_ok_request)
next
  case (ru_response s r)
  then show ?case by (simp add: ud_ok_response)
next
  case (ru_body s l)
  then show ?case by (simp add: ud_ok_body)
qed

lemma un_ok_request:
  assumes inv: "\<forall>ke\<in>set (un_endpoints s). un_ok U (fst ke) (snd ke)" and tok: "http_token method"
  shows "\<forall>ke\<in>set (un_endpoints (onRequest_universal U url method s)). un_ok U (fst ke) (snd ke)"
proof (cases "U url")
  case None
  then show ?thesis using inv by (simp add: onRequest_universal_def)
next
  case (Some u)
  define k where "k = endpointKey_of extractEndpointPattern_universal method u"
  define new where "new = \<lparr>un_pattern = extractEndpointPattern_universal u, un_method = method, un_examples = [url]\<rparr>"
  define f :: "un_endpoint \<Rightarrow> un_endpoint"
    where "f = (\<lambda>ep. ep\<lparr>un_examples := Set_add url (un_examples ep)\<rparr>)"
  have new: "un_ok U k new"
    using tok Some record_ok_first[of U url u extractEndpointPattern_universal "method"]
    by (simp add: un_ok_def new_def k_def)
  have step: "un_ok U k (f e)" if e: "un_ok U k e" for e
  proof -
    have "record_ok extractEndpointPattern_universal U k (un_method e) (un_pattern e) (Set_add url (un_examples e))"
      unfolding k_def
      by (rule record_ok_add) (use e tok Some in \<open>simp_all add: un_ok_def k_def\<close>)
    then show ?thesis using e by (simp add: un_ok_def f_def)
  qed
  have a: "\<forall>ke\<in>set (Map_set k new (un_endpoints s)). un_ok U (fst ke) (snd ke)"
    by (rule all_Map_set[OF inv new])
  have b: "\<forall>ke\<in>set (Map_modify k f (un_endpoints s)). un_ok U (fst ke) (snd ke)"
    by (rule all_Map_modify[OF inv step])
  have "un_endpoints (onRequest_universal U url method s) = un_endpoints s
        \<or> un_endpoints (onRequest_universal U url method s) = Map_set k new (un_endpoints s)
        \<or> un_endpoints (onRequest_universal U url method s) = Map_modify k f (un_endpoints s)"
    using Some by (simp add: onRequest_universal_def Let_def k_def new_def f_def)
  then show ?thesis using inv a b by (elim disjE) simp_all
qed

lemma un_ok_reachable:
  "reachable_universal U s \<Longrightarrow> \<forall>ke\<in>set (un_endpoints s). un_ok U (fst ke) (snd ke)"
proof (induction rule: reachable_universal.induct)
  case rv_init
  then show ?case by (simp add: universal_init_def)
next
  case (rv_request s m url)
  then show ?case by (simp add: un_ok_request)
next
  case (rv_domain s startUrl)
  then show ?case by (simp add: discoverEndpoints_domain_def split: option.splits)
qed

lemma a_not_token: "\<not> list_ex (\<lambda>tk. str_includes (toLowerCase ''a'') tk) tokenKeys"
  by code_simp

lemma a_not_auth: "\<not> list_ex (\<lambda>ak. str_includes (toLowerCase ''a'') ak) authKeys"
  by code_simp

lemma token_is_token: "list_ex (\<lambda>tk. str_includes (toLowerCase ''token'') tk) tokenKeys"
  by code_simp

lemma token_is_auth: "list_ex (\<lambda>ak. str_includes (toLowerCase ''token'') ak) authKeys"
  by code_simp

lemma searchObject_nest:
  "searchObject (nest n [(''token'', JString v)]) path toks
   = Set_add (''payload.'' @ path @ concat (replicate n ''a.'') @ ''token='' @ take 30 v @ ''...'') toks"
proof (induction n arbitrary: path)
  case 0
  then show ?case using token_is_token by (simp add: substring0_def)
next
  case (Suc n)
  then show ?case using a_not_token by simp
qed

lemma searchObject_auth_nest_path:
  "path \<noteq> [] \<Longrightarrow> searchObject_auth (nest n [(''token'', JString v)]) path authTokens
   = Map_set (path @ ''.'' @ concat (replicate n ''a.'') @ ''token'') (JString v) authTokens"
proof (induction n arbitrary: path)
  case 0
  then show ?case using token_is_auth by simp
next
  case (Suc n)
  then show ?case using a_not_auth by simp
qed

section \<open>Properties of the URL templater\<close>

subsection \<open>Auxiliary facts\<close>

lemma takeWhile_before_slash:
  "\<not> P y \<Longrightarrow> takeWhile P (xs @ y # ys) = takeWhile P xs"
  by (induction xs) auto

lemma re_id_before: "\<not> is_digit y \<Longrightarrow> re_id (xs @ y # ys) = re_id xs"
  by (simp add: re_id_def m_atleast_def takeWhile_before_slash)

lemma re_id_digits:
  assumes "d \<noteq> []" "list_all is_digit d" "post = [] \<or> \<not> is_digit (hd post)"
  shows "re_id (d @ post) = Some (length d)"
proof -
  have "takeWhile is_digit (d @ post) = d"
    using assms(2,3) by (cases post) (auto simp: list_all_iff takeWhile_append2 )
  then show ?thesis using assms(1) by (cases d) (simp_all add: re_id_def m_atleast_def)
qed

lemma re_id_le: "re_id xs = Some n \<Longrightarrow> n \<le> length xs"
  by (auto simp: re_id_def m_atleast_def Let_def length_takeWhile_le split: if_splits)

lemma slash_not_digit: "\<not> is_digit CHR ''/''"
  by (simp add: is_digit_def)

lemma replaceAll_id_segment:
  assumes "d \<noteq> []" "list_all is_digit d" "post = [] \<or> \<not> is_digit (hd post)"
  shows "replaceAll re_id rep (pre @ CHR ''/'' # d @ post)
       = replaceAll re_id rep pre @ rep @ replaceAll re_id rep post"
proof (induction pre rule: length_induct)
  case (1 pre)
  show ?case
  proof (cases pre)
    case Nil
    then show ?thesis using re_id_digits[OF assms] by simp
  next
    case (Cons c cs)
    show ?thesis
    proof (cases "c = CHR ''/''")
      case False
      have "length cs < length pre" using Cons by simp
      then show ?thesis using 1 Cons False by simp
    next
      case True
      have eq: "re_id (cs @ CHR ''/'' # d @ post) = re_id cs"
        using re_id_before[OF slash_not_digit] by simp
      show ?thesis
      proof (cases "re_id cs")
        case None
        have "length cs < length pre" using Cons by simp
        then show ?thesis using 1 Cons True None eq by simp
      next
        case (Some n)
        have n: "n \<le> length cs" using Some by (rule re_id_le)
        have "length (drop n cs) < length pre" using Cons by simp
        then have "replaceAll re_id rep (drop n cs @ CHR ''/'' # d @ post)
             = replaceAll re_id rep (drop n cs) @ rep @ replaceAll re_id rep post"
          using 1 by blast
        then show ?thesis using Cons True Some eq n by simp
      qed
    qed
  qed
qed

lemma slash_not_alnum: "\<not> is_alnum CHR ''/''"
  by (simp add: is_alnum_def)

lemma takeWhile_replaceAll:
  "takeWhile is_alnum (replaceAll m (CHR ''/'' # rep') s) = takeWhile is_alnum s"
proof (induction s)
  case Nil
  then show ?case by simp
next
  case (Cons c cs)
  then show ?case using slash_not_alnum by (auto split: option.splits)
qed

lemma noRun_drop: "noRun s \<Longrightarrow> noRun (drop k s)"
proof (induction s arbitrary: k)
  case Nil
  then show ?case by simp
next
  case (Cons c cs)
  then show ?case by (cases k) simp_all
qed

lemma noRun_replaceAll:
  assumes closed: "\<And>x. noRun x \<Longrightarrow> noRun ((CHR ''/'' # rep') @ x)"
  shows "noRun s \<Longrightarrow> noRun (replaceAll m (CHR ''/'' # rep') s)"
proof (induction s rule: length_induct)
  case (1 s)
  show ?case
  proof (cases s)
    case Nil
    then show ?thesis by simp
  next
    case (Cons c cs)
    have cs: "noRun cs" using 1(2) Cons by simp
    have ih: "noRun (replaceAll m (CHR ''/'' # rep') t)" if "length t \<le> length cs" "noRun t" for t
      using 1(1) that Cons by simp
    show ?thesis
    proof (cases "c = CHR ''/''")
      case False
      then show ?thesis using Cons ih[OF _ cs] by simp
    next
      case True
      show ?thesis
      proof (cases "m cs")
        case None
        have "length (takeWhile is_alnum (replaceAll m (CHR ''/'' # rep') cs)) < 20"
          using takeWhile_replaceAll[of m rep' cs] 1(2) Cons True by simp
        then show ?thesis using Cons True None ih[OF _ cs] by simp
      next
        case (Some k)
        have "noRun (replaceAll m (CHR ''/'' # rep') (drop k cs))"
          by (rule ih) (simp_all add: noRun_drop[OF cs])
        then have "noRun ((CHR ''/'' # rep') @ replaceAll m (CHR ''/'' # rep') (drop k cs))" by (rule closed)
        then show ?thesis using Cons True Some by simp
      qed
    qed
  qed
qed

lemma re_token_None: "re_token s = None \<Longrightarrow> length (takeWhile is_alnum s) < 20"
  by (simp add: re_token_def m_atleast_def Let_def split: if_splits)

lemma brace_not_alnum: "\<not> is_alnum CHR ''{''" "\<not> is_alnum CHR ''@''"
  by (simp_all add: is_alnum_def)

lemma closed_token: "noRun x \<Longrightarrow> noRun (''/{token}'' @ x)"
  by (simp add: brace_not_alnum)

lemma closed_username: "noRun x \<Longrightarrow> noRun ((''/@'' @ ''{username}'') @ x)"
  by (simp add: brace_not_alnum)

lemma closed_postId: "noRun x \<Longrightarrow> noRun (''/p/{postId}'' @ x)"
  by (simp add: brace_not_alnum is_alnum_def)

lemma noRun_after_token: "noRun (replaceAll re_token ''/{token}'' s)"
proof (induction s rule: length_induct)
  case (1 s)
  show ?case
  proof (cases s)
    case Nil
    then show ?thesis by simp
  next
    case (Cons c cs)
    have ih: "noRun (replaceAll re_token ''/{token}'' t)" if "length t \<le> length cs" for t
      using 1 that Cons by simp
    show ?thesis
    proof (cases "c = CHR ''/''")
      case False
      then show ?thesis using Cons ih[of cs] by simp
    next
      case True
      show ?thesis
      proof (cases "re_token cs")
        case None
        have "takeWhile is_alnum (replaceAll re_token ''/{token}'' cs) = takeWhile is_alnum cs"
          by (rule takeWhile_replaceAll)
        then have "length (takeWhile is_alnum (replaceAll re_token ''/{token}'' cs)) < 20"
          using re_token_None[OF None] by simp
        then show ?thesis using Cons True None ih[of cs] by simp
      next
        case (Some k)
        have "noRun (replaceAll re_token ''/{token}'' (drop k cs))" by (rule ih) simp
        then have "noRun (''/{token}'' @ replaceAll re_token ''/{token}'' (drop k cs))"
          by (rule closed_token)
        then show ?thesis using Cons True Some by simp
      qed
    qed
  qed
qed

lemma hex_is_alnum: "is_hex_lower c \<Longrightarrow> is_alnum c"
  by (auto simp: is_hex_lower_def is_alnum_def)

lemma takeWhile_prefix_length:
  assumes "n \<le> length s" "list_all P (take n s)"
  shows "n \<le> length (takeWhile P s)"
  using assms
proof (induction s arbitrary: n)
  case Nil
  then show ?case by simp
next
  case (Cons c cs)
  then show ?case by (cases n) auto
qed

lemma re_objectId_long: "re_objectId s = Some k \<Longrightarrow> 24 \<le> length (takeWhile is_alnum s)"
proof -
  assume "re_objectId s = Some k"
  then have a: "24 \<le> length s" "list_all is_hex_lower (take 24 s)"
    by (simp_all add: re_objectId_def m_exact_def split: if_splits)
  have "list_all is_alnum (take 24 s)"
    using a(2) hex_is_alnum by (auto simp: list_all_iff)
  then show ?thesis using a(1) by (rule takeWhile_prefix_length[rotated])
qed

lemma objectId_no_match: "noRun s \<Longrightarrow> replaceAll re_objectId rep s = s"
proof (induction s)
  case Nil
  then show ?case by simp
next
  case (Cons c cs)
  show ?case
  proof (cases "c = CHR ''/''")
    case False
    then show ?thesis using Cons by simp
  next
    case True
    have "re_objectId cs = None"
    proof (cases "re_objectId cs")
      case None
      then show ?thesis .
    next
      case (Some k)
      then have "24 \<le> length (takeWhile is_alnum cs)" by (rule re_objectId_long)
      then show ?thesis using Cons.prems True by simp
    qed
    then show ?thesis using Cons True by simp
  qed
qed

section \<open>Interleaving the events of two exchanges\<close>

subsection \<open>Auxiliary facts\<close>

lemma endpoints_ingest: "endpoints (ingest U J P ev s) = ingest_eps U J P ev (endpoints s)"
proof (cases ev)
  case (RequestWillBeSent now p)
  then show ?thesis
    by (simp add: ingest_eps_def captureRequest_def Let_def split: option.splits)
next
  case (RequestWillBeSentExtraInfo x)
  then show ?thesis by (simp add: ingest_eps_def captureRequestHeaders_def split: option.splits)
next
  case (ResponseReceived now r)
  then show ?thesis by (simp add: ingest_eps_def captureResponse_def)
next
  case (ResponseReceivedExtraInfo y)
  then show ?thesis by (simp add: ingest_eps_def captureResponseHeaders_def)
next
  case (LoadingFinished l)
  then show ?thesis by (simp add: ingest_eps_def captureResponseBody_def split: option.splits prod.splits)
qed

lemma endpoints_fold_ingest:
  "endpoints (fold (ingest U J P) evs s) = fold (ingest_eps U J P) evs (endpoints s)"
  by (induction evs arbitrary: s) (simp_all add: endpoints_ingest)

lemma ids_extractTokensFromHeaders: "ids (extractTokensFromHeaders h ep) = ids ep"
  by (simp add: ids_def extractTokensFromHeaders_def split: option.splits)

lemma ids_extractTokensFromPayload: "ids (extractTokensFromPayload v ep) = ids ep"
  by (simp add: ids_def extractTokensFromPayload_def split: json.splits)

lemma ids_capturePostData: "ids (capturePostData J now d ep) = ids ep"
  by (simp add: capturePostData_def ids_extractTokensFromPayload split: option.splits)
     (simp add: ids_def)

lemma ids_recordRequest: "ids (recordRequest J now p ep) = insert (p_requestId p) (ids ep)"
  by (simp add: recordRequest_def Let_def ids_capturePostData ids_extractTokensFromHeaders)
     (simp add: ids_def)

lemma ids_newEndpoint: "ids (newEndpoint p u) = {}"
  by (simp add: ids_def newEndpoint_def)

lemma map_modify_first_keep:
  "(\<And>x. h (g x) = h x) \<Longrightarrow> map h (modify_first Q g xs) = map h xs"
  by (induction xs) auto

lemma image_modify_first_keep:
  "(\<And>x. h (g x) = h x) \<Longrightarrow> h ` set (modify_first Q g xs) = h ` set xs"
  using map_modify_first_keep[of h g Q xs] by (metis list.set_map)

lemma ids_mergeExtraHeaders: "ids (mergeExtraHeaders x h ep) = ids ep"
proof -
  have "rq_requestId ` set (modify_first (\<lambda>r. rq_requestId r = x_requestId x)
          (\<lambda>r. r\<lparr>rq_headers := Object_assign (rq_headers r) h\<rparr>) (ep_requests ep)) = rq_requestId ` set (ep_requests ep)"
    by (rule image_modify_first_keep) simp
  then show ?thesis
    by (simp add: ids_def mergeExtraHeaders_def Let_def split: option.splits)
qed

lemma ids_pushResponse: "ids (pushResponse now r ep) = insert (r_requestId r) (ids ep)"
  by (simp add: ids_def pushResponse_def)

lemma ids_mergeResponseHeaders: "ids (mergeResponseHeaders y ep) = ids ep"
proof -
  have "rs_requestId ` set (modify_first (\<lambda>r. rs_requestId r = y_requestId y)
          (\<lambda>r. r\<lparr>rs_extraHeaders := y_headers y, rs_statusCode := y_statusCode y\<rparr>) (ep_responses ep))
        = rs_requestId ` set (ep_responses ep)"
    by (rule image_modify_first_keep) simp
  then show ?thesis
    by (simp add: mergeResponseHeaders_def ids_extractTokensFromHeaders) (simp add: ids_def)
qed

lemma ids_mergeBody: "ids (mergeBody J P rid body b64 ep) = ids ep"
proof -
  have a: "rs_requestId ` set (modify_first (\<lambda>r. rs_requestId r = rid) (\<lambda>r. r\<lparr>rs_body := v\<rparr>) (ep_responses ep))
        = rs_requestId ` set (ep_responses ep)" for v
    by (rule image_modify_first_keep) simp
  have b: "rs_requestId ` set (modify_first (\<lambda>r. rs_requestId r = rid) (\<lambda>r. r\<lparr>rs_bodyText := v\<rparr>) (ep_responses ep))
        = rs_requestId ` set (ep_responses ep)" for v
    by (rule image_modify_first_keep) simp
  show ?thesis
    by (simp add: mergeBody_def ids_extractTokensFromPayload split: option.splits)
       (simp add: ids_def a b)
qed

lemma hasRequest_ids: "hasRequest i e \<Longrightarrow> i \<in> ids e"
  by (auto simp: hasRequest_def ids_def list_ex_iff)

lemma hasResponse_ids: "hasResponse i e \<Longrightarrow> i \<in> ids e"
  by (auto simp: hasResponse_def ids_def list_ex_iff)

lemma ingest_eps_request_skip:
  "request_key U (RequestWillBeSent now p) = None \<Longrightarrow> ingest_eps U J P (RequestWillBeSent now p) eps = eps"
proof (cases "p_type p = ''Fetch''")
  case True
  then show "request_key U (RequestWillBeSent now p) = None \<Longrightarrow> ?thesis"
    by (cases "startsWith (p_url p) ''http''"; cases "U (p_url p)")
       (simp_all add: ingest_eps_def captureRequest_def)
next
  case nf: False
  show "request_key U (RequestWillBeSent now p) = None \<Longrightarrow> ?thesis"
  proof (cases "p_type p = ''XHR''")
    case True
    then show "request_key U (RequestWillBeSent now p) = None \<Longrightarrow> ?thesis"
      by (cases "startsWith (p_url p) ''http''"; cases "U (p_url p)")
         (simp_all add: ingest_eps_def captureRequest_def)
  next
    case False
    then show ?thesis using nf by (simp add: ingest_eps_def captureRequest_def)
  qed
qed

lemma ingest_eps_request_file:
  assumes "request_key U (RequestWillBeSent now p) = Some k"
  shows "\<exists>u. ingest_eps U J P (RequestWillBeSent now p) = file_under k (newEndpoint p u) (recordRequest J now p)"
proof -
  have ty: "p_type p = ''Fetch'' \<or> p_type p = ''XHR''"
    using assms by (auto split: if_splits)
  have http: "startsWith (p_url p) ''http''"
    using assms by (auto split: if_splits)
  obtain u where u: "U (p_url p) = Some u" "k = endpointKey p u"
    using assms by (auto split: if_splits option.splits)
  have "ingest_eps U J P (RequestWillBeSent now p) eps = file_under k (newEndpoint p u) (recordRequest J now p) eps" for eps
    using ty
  proof
    assume "p_type p = ''Fetch''"
    then show ?thesis using http u
      by (simp add: ingest_eps_def captureRequest_def Let_def file_under_def)
  next
    assume "p_type p = ''XHR''"
    then show ?thesis using http u
      by (simp add: ingest_eps_def captureRequest_def Let_def file_under_def)
  qed
  then show ?thesis by (intro exI[of _ u]) (simp add: fun_eq_iff)
qed

lemma ingest_eps_shape:
  "ingest_eps U J P ev = (\<lambda>eps. eps)
   \<or> (\<exists>k. request_key U ev = Some k \<and> file_like (event_id ev) k (ingest_eps U J P ev))
   \<or> enrich_like (event_id ev) (ingest_eps U J P ev)"
proof (cases ev)
  case (RequestWillBeSent now p)
  show ?thesis
  proof (cases "request_key U ev")
    case None
    then have "ingest_eps U J P ev = (\<lambda>eps. eps)"
      using RequestWillBeSent ingest_eps_request_skip[of U now p J P] by (simp add: fun_eq_iff)
    then show ?thesis by simp
  next
    case (Some k)
    then obtain u where "ingest_eps U J P ev = file_under k (newEndpoint p u) (recordRequest J now p)"
      using RequestWillBeSent ingest_eps_request_file[of U now p k J P] by auto
    then have "file_like (event_id ev) k (ingest_eps U J P ev)"
      unfolding file_like_def
      using RequestWillBeSent
      by (intro exI[of _ "newEndpoint p u"] exI[of _ "recordRequest J now p"])
         (simp add: ids_newEndpoint ids_recordRequest)
    then show ?thesis using Some by simp
  qed
next
  case (RequestWillBeSentExtraInfo x)
  show ?thesis
  proof (cases "x_headers x")
    case None
    then have "ingest_eps U J P ev = (\<lambda>eps. eps)"
      using RequestWillBeSentExtraInfo by (simp add: ingest_eps_def captureRequestHeaders_def fun_eq_iff)
    then show ?thesis by simp
  next
    case (Some h)
    have "\<forall>eps. ingest_eps U J P ev eps = forFirstEndpoint (hasRequest (x_requestId x)) (mergeExtraHeaders x h) eps"
      using RequestWillBeSentExtraInfo Some by (simp add: ingest_eps_def captureRequestHeaders_def)
    then have "enrich_like (event_id ev) (ingest_eps U J P ev)"
      unfolding enrich_like_def
      using RequestWillBeSentExtraInfo hasRequest_ids ids_mergeExtraHeaders
      by (intro exI[of _ "hasRequest (x_requestId x)"] exI[of _ "mergeExtraHeaders x h"]) auto
    then show ?thesis by simp
  qed
next
  case (ResponseReceived now r)
  show ?thesis
  proof (cases "r_type r \<noteq> ''Fetch'' \<and> r_type r \<noteq> ''XHR''")
    case True
    then have "ingest_eps U J P ev = (\<lambda>eps. eps)"
      using ResponseReceived by (simp add: ingest_eps_def captureResponse_def fun_eq_iff)
    then show ?thesis by simp
  next
    case False
    then have "\<forall>eps. ingest_eps U J P ev eps = forFirstEndpoint (hasRequest (r_requestId r)) (pushResponse now r) eps"
      using ResponseReceived by (auto simp: ingest_eps_def captureResponse_def)
    then have "enrich_like (event_id ev) (ingest_eps U J P ev)"
      unfolding enrich_like_def
      using ResponseReceived hasRequest_ids ids_pushResponse
      by (intro exI[of _ "hasRequest (r_requestId r)"] exI[of _ "pushResponse now r"]) auto
    then show ?thesis by simp
  qed
next
  case (ResponseReceivedExtraInfo y)
  have "\<forall>eps. ingest_eps U J P ev eps = forFirstEndpoint (hasResponse (y_requestId y)) (mergeResponseHeaders y) eps"
    using ResponseReceivedExtraInfo by (simp add: ingest_eps_def captureResponseHeaders_def)
  then have "enrich_like (event_id ev) (ingest_eps U J P ev)"
    unfolding enrich_like_def
    using ResponseReceivedExtraInfo hasResponse_ids ids_mergeResponseHeaders
    by (intro exI[of _ "hasResponse (y_requestId y)"] exI[of _ "mergeResponseHeaders y"]) auto
  then show ?thesis by simp
next
  case (LoadingFinished l)
  show ?thesis
  proof (cases "l_response l")
    case None
    then have "ingest_eps U J P ev = (\<lambda>eps. eps)"
      using LoadingFinished by (simp add: ingest_eps_def captureResponseBody_def fun_eq_iff)
    then show ?thesis by simp
  next
    case (Some bb)
    obtain body b64 where bb: "bb = (body, b64)" by (cases bb)
    have "\<forall>eps. ingest_eps U J P ev eps
            = forFirstEndpoint (hasResponse (l_requestId l)) (mergeBody J P (l_requestId l) body b64) eps"
      using LoadingFinished Some bb by (simp add: ingest_eps_def captureResponseBody_def)
    then have "enrich_like (event_id ev) (ingest_eps U J P ev)"
      unfolding enrich_like_def
      using LoadingFinished hasResponse_ids ids_mergeBody
      by (intro exI[of _ "hasResponse (l_requestId l)"] exI[of _ "mergeBody J P (l_requestId l) body b64"]) auto
    then show ?thesis by simp
  qed
qed

lemma restrict_Map_modify_in:
  "k \<in> K \<Longrightarrow> restrict_keys K (Map_modify k f eps) = Map_modify k f (restrict_keys K eps)"
  by (induction eps) (auto simp: restrict_keys_def)

lemma restrict_Map_modify_out:
  "k \<notin> K \<Longrightarrow> restrict_keys K (Map_modify k f eps) = restrict_keys K eps"
  by (induction eps) (auto simp: restrict_keys_def)

lemma restrict_Map_set_in:
  "k \<in> K \<Longrightarrow> restrict_keys K (Map_set k v eps) = Map_set k v (restrict_keys K eps)"
  by (induction eps) (auto simp: restrict_keys_def)

lemma restrict_Map_set_out:
  "k \<notin> K \<Longrightarrow> restrict_keys K (Map_set k v eps) = restrict_keys K eps"
  by (induction eps) (auto simp: restrict_keys_def)

lemma map_of_restrict: "map_of (restrict_keys K eps) k = (if k \<in> K then map_of eps k else None)"
  by (induction eps) (auto simp: restrict_keys_def)

lemma Map_has_restrict: "k \<in> K \<Longrightarrow> Map_has k (restrict_keys K eps) = Map_has k eps"
  by (simp add: Map_has_def map_of_restrict)

lemma restrict_file_under_in:
  "k \<in> K \<Longrightarrow> restrict_keys K (file_under k new f eps) = file_under k new f (restrict_keys K eps)"
  by (simp add: file_under_def restrict_Map_modify_in restrict_Map_set_in Map_has_restrict)

lemma restrict_file_under_out:
  "k \<notin> K \<Longrightarrow> restrict_keys K (file_under k new f eps) = restrict_keys K eps"
  by (simp add: file_under_def restrict_Map_modify_out restrict_Map_set_out)

lemma restrict_forFirst_in:
  "\<forall>ke\<in>set eps. fst ke \<notin> K \<longrightarrow> \<not> Q (snd ke) \<Longrightarrow>
   restrict_keys K (forFirstEndpoint Q f eps) = forFirstEndpoint Q f (restrict_keys K eps)"
  by (induction eps) (auto simp: restrict_keys_def forFirstEndpoint_def)

lemma restrict_forFirst_out:
  "\<forall>ke\<in>set eps. fst ke \<in> K \<longrightarrow> \<not> Q (snd ke) \<Longrightarrow>
   restrict_keys K (forFirstEndpoint Q f eps) = restrict_keys K eps"
  by (induction eps) (auto simp: restrict_keys_def forFirstEndpoint_def)

lemma separated_sym: "separated KA a KB b eps = separated KB b KA a eps"
  by (auto simp: separated_def)

lemma separated_Nil: "separated KA a KB b []"
  by (simp add: separated_def)

lemma all_modify_first:
  assumes "\<forall>x\<in>set xs. G x" and "\<And>x. G x \<Longrightarrow> Q x \<Longrightarrow> G (f x)"
  shows "\<forall>x\<in>set (modify_first Q f xs). G x"
  using assms by (induction xs) auto

lemma step_file:
  assumes sep: "separated KA a KB b eps" and disj: "KA \<inter> KB = {}" and k: "k \<in> KA"
    and fl: "file_like a k G"
  shows "restrict_keys KA (G eps) = G (restrict_keys KA eps)
       \<and> restrict_keys KB (G eps) = restrict_keys KB eps
       \<and> separated KA a KB b (G eps)"
proof -
  obtain new f where G: "\<And>eps. G eps = file_under k new f eps"
    and new: "ids new = {}" and f: "\<And>e. ids (f e) \<subseteq> insert a (ids e)"
    using fl unfolding file_like_def by blast
  have kb: "k \<notin> KB" using k disj by blast
  define GG where "GG = (\<lambda>k e. (k \<in> KA \<and> ids e \<subseteq> {a}) \<or> (k \<in> KB \<and> ids e \<subseteq> {b}))"
  have inv: "\<forall>ke\<in>set eps. GG (fst ke) (snd ke)"
    using sep by (simp add: separated_def GG_def)
  have gnew: "GG k new" using k new by (simp add: GG_def)
  have gf: "GG k (f e)" if "GG k e" for e
  proof -
    have "ids e \<subseteq> {a}" using that kb by (simp add: GG_def)
    then have "ids (f e) \<subseteq> {a}" using f[of e] by blast
    then show ?thesis using k by (simp add: GG_def)
  qed
  have inv1: "\<forall>ke\<in>set (if \<not> Map_has k eps then Map_set k new eps else eps). GG (fst ke) (snd ke)"
    using all_Map_set[of eps GG k new, OF inv gnew] inv by simp
  have "\<forall>ke\<in>set (file_under k new f eps). GG (fst ke) (snd ke)"
    unfolding file_under_def by (rule all_Map_modify[OF inv1 gf])
  then have "separated KA a KB b (G eps)"
    by (simp add: separated_def GG_def G)
  then show ?thesis
    by (simp add: G restrict_file_under_in[OF k] restrict_file_under_out[OF kb])
qed

lemma step_enrich:
  assumes sep: "separated KA a KB b eps" and disj: "KA \<inter> KB = {}" and ne: "a \<noteq> b"
    and el: "enrich_like a G"
  shows "restrict_keys KA (G eps) = G (restrict_keys KA eps)
       \<and> restrict_keys KB (G eps) = restrict_keys KB eps
       \<and> separated KA a KB b (G eps)"
proof -
  obtain Q f where G: "\<And>eps. G eps = forFirstEndpoint Q f eps"
    and Q: "\<And>e. Q e \<Longrightarrow> a \<in> ids e" and f: "\<And>e. ids (f e) \<subseteq> insert a (ids e)"
    using el unfolding enrich_like_def by blast
  define GG where "GG = (\<lambda>ke. (fst ke \<in> KA \<and> ids (snd ke) \<subseteq> {a}) \<or> (fst ke \<in> KB \<and> ids (snd ke) \<subseteq> {b}))"
  have inv: "\<forall>ke\<in>set eps. GG ke"
    using sep by (simp add: separated_def GG_def)
  have own: "fst ke \<in> KA \<and> ids (snd ke) \<subseteq> {a}" if "GG ke" "Q (snd ke)" for ke
  proof -
    have "a \<in> ids (snd ke)" using that(2) by (rule Q)
    then have "\<not> ids (snd ke) \<subseteq> {b}" using ne by blast
    then show ?thesis using that(1) by (simp add: GG_def)
  qed
  have a1: "\<forall>ke\<in>set eps. fst ke \<notin> KA \<longrightarrow> \<not> Q (snd ke)"
    using inv own by blast
  have a2: "\<forall>ke\<in>set eps. fst ke \<in> KB \<longrightarrow> \<not> Q (snd ke)"
    using inv own disj by blast
  have gf: "GG (fst ke, f (snd ke))" if "GG ke" "Q (snd ke)" for ke
  proof -
    have o: "fst ke \<in> KA" "ids (snd ke) \<subseteq> {a}" using own[OF that] by simp_all
    have "ids (f (snd ke)) \<subseteq> {a}" using f[of "snd ke"] o(2) by blast
    then show ?thesis using o(1) by (simp add: GG_def)
  qed
  have "\<forall>ke\<in>set (modify_first (\<lambda>ke. Q (snd ke)) (\<lambda>ke. (fst ke, f (snd ke))) eps). GG ke"
    by (rule all_modify_first[OF inv gf])
  then have "separated KA a KB b (G eps)"
    by (simp add: separated_def GG_def G forFirstEndpoint_def)
  then show ?thesis
    by (simp add: G restrict_forFirst_in[OF a1] restrict_forFirst_out[OF a2])
qed

lemma step_own:
  assumes sep: "separated KA a KB b eps" and disj: "KA \<inter> KB = {}" and ne: "a \<noteq> b"
    and id: "event_id ev = a" and key: "\<And>k. request_key U ev = Some k \<Longrightarrow> k \<in> KA"
  shows "restrict_keys KA (ingest_eps U J P ev eps) = ingest_eps U J P ev (restrict_keys KA eps)
       \<and> restrict_keys KB (ingest_eps U J P ev eps) = restrict_keys KB eps
       \<and> separated KA a KB b (ingest_eps U J P ev eps)"
proof -
  consider "ingest_eps U J P ev = (\<lambda>eps. eps)"
    | k where "request_key U ev = Some k" "file_like a k (ingest_eps U J P ev)"
    | "enrich_like a (ingest_eps U J P ev)"
    using ingest_eps_shape[of U J P ev] id by auto
  then show ?thesis
  proof cases
    case 1
    then show ?thesis using sep by simp
  next
    case 2
    show ?thesis by (rule step_file[OF sep disj key[OF 2(1)] 2(2)])
  next
    case 3
    show ?thesis by (rule step_enrich[OF sep disj ne 3])
  qed
qed

lemma interleave_projection:
  assumes disj: "KA \<inter> KB = {}" and ne: "a \<noteq> b"
  shows "\<lbrakk>zs \<in> shuffles xs ys; separated KA a KB b eps;
          \<forall>e\<in>set xs. event_id e = a \<and> (\<forall>k. request_key U e = Some k \<longrightarrow> k \<in> KA);
          \<forall>e\<in>set ys. event_id e = b \<and> (\<forall>k. request_key U e = Some k \<longrightarrow> k \<in> KB)\<rbrakk>
        \<Longrightarrow> restrict_keys KA (fold (ingest_eps U J P) zs eps) = fold (ingest_eps U J P) xs (restrict_keys KA eps)
          \<and> restrict_keys KB (fold (ingest_eps U J P) zs eps) = fold (ingest_eps U J P) ys (restrict_keys KB eps)
          \<and> separated KA a KB b (fold (ingest_eps U J P) zs eps)"
proof (induction zs arbitrary: xs ys eps)
  case Nil
  then show ?case by simp
next
  case (Cons z zs)
  from Cons.prems(1) consider
      xs' where "xs = z # xs'" "zs \<in> shuffles xs' ys"
    | ys' where "ys = z # ys'" "zs \<in> shuffles xs ys'"
    by (auto simp: Cons_in_shuffles_iff neq_Nil_conv)
  then show ?case
  proof cases
    case 1
    have z: "event_id z = a" "\<And>k. request_key U z = Some k \<Longrightarrow> k \<in> KA"
      using Cons.prems(3) 1(1) by simp_all
    have st: "restrict_keys KA (ingest_eps U J P z eps) = ingest_eps U J P z (restrict_keys KA eps)
       \<and> restrict_keys KB (ingest_eps U J P z eps) = restrict_keys KB eps
       \<and> separated KA a KB b (ingest_eps U J P z eps)"
      by (rule step_own[OF Cons.prems(2) disj ne z])
    have xs': "\<forall>e\<in>set xs'. event_id e = a \<and> (\<forall>k. request_key U e = Some k \<longrightarrow> k \<in> KA)"
      using Cons.prems(3) 1(1) by simp
    from Cons.IH[OF 1(2) _ xs' Cons.prems(4), of "ingest_eps U J P z eps"] st
    show ?thesis using 1(1) by simp
  next
    case 2
    have disj': "KB \<inter> KA = {}" using disj by blast
    have ne': "b \<noteq> a" using ne by simp
    have sep': "separated KB b KA a eps" using Cons.prems(2) separated_sym by blast
    have z: "event_id z = b" "\<And>k. request_key U z = Some k \<Longrightarrow> k \<in> KB"
      using Cons.prems(4) 2(1) by simp_all
    have st: "restrict_keys KB (ingest_eps U J P z eps) = ingest_eps U J P z (restrict_keys KB eps)
       \<and> restrict_keys KA (ingest_eps U J P z eps) = restrict_keys KA eps
       \<and> separated KB b KA a (ingest_eps U J P z eps)"
      by (rule step_own[OF sep' disj' ne' z])
    then have sep2: "separated KA a KB b (ingest_eps U J P z eps)" using separated_sym by blast
    have ys': "\<forall>e\<in>set ys'. event_id e = b \<and> (\<forall>k. request_key U e = Some k \<longrightarrow> k \<in> KB)"
      using Cons.prems(4) 2(1) by simp
    from Cons.IH[OF 2(2) sep2 Cons.prems(3) ys'] st
    show ?thesis using 2(1) by simp
  qed
qed

lemma separated_map_of:
  assumes "separated KA a KB b eps"
  shows "map_of eps k = (if k \<in> KA then map_of (restrict_keys KA eps) k
                         else map_of (restrict_keys KB eps) k)"
proof (cases "k \<in> KA \<or> k \<in> KB")
  case True
  then show ?thesis by (auto simp: map_of_restrict)
next
  case False
  have "k \<notin> fst ` set eps"
    using assms False by (force simp: separated_def)
  then have "map_of eps k = None" by (simp add: map_of_eq_None_iff)
  then show ?thesis using False by (simp add: map_of_restrict)
qed

lemma request_keys_member:
  "e \<in> set evs \<Longrightarrow> request_key U e = Some k \<Longrightarrow> k \<in> request_keys U evs"
proof -
  assume e: "e \<in> set evs" and k: "request_key U e = Some k"
  then have "e \<in> set (filter (\<lambda>x. request_key U x \<noteq> None) evs)" by simp
  then have "(the \<circ> request_key U) e \<in> (the \<circ> request_key U) ` set (filter (\<lambda>x. request_key U x \<noteq> None) evs)"
    by (rule imageI)
  then show ?thesis using k by (simp add: request_keys_def List.map_filter_def)
qed

lemma append_in_shuffles: "xs @ ys \<in> shuffles xs ys"
  by (induction xs) (simp_all add: Cons_in_shuffles_leftI)

subsection \<open>The credential walks and the entries they visit\<close>

lemma is_token_key_test:
  "list_ex (\<lambda>tk. str_includes (toLowerCase key) tk) tokenKeys = is_token_key key"
  by (simp add: is_token_key_def)

lemma is_auth_key_test:
  "list_ex (\<lambda>ak. str_includes (toLowerCase key) ak) authKeys = is_auth_key key"
  by (simp add: is_auth_key_def)

lemma map_filter_append:
  "List.map_filter f (xs @ ys) = List.map_filter f xs @ List.map_filter f ys"
  by (simp add: List.map_filter_def)

lemma searchObject_visited:
  "searchObject es path toks = fold Set_add (List.map_filter token_fragment (visited ext_payload es path)) toks"
proof (induction es path toks rule: searchObject.induct)
  case (1 path toks)
  then show ?case by (simp add: List.map_filter_simps)
next
  case (2 key "value" rest path toks)
  show ?case
  proof (cases "value")
    case (JObject es)
    then show ?thesis
      using 2 by (simp add: List.map_filter_simps map_filter_append token_fragment_def ext_payload_def)
  next
    case (JString s)
    then show ?thesis
      using 2 by (simp add: List.map_filter_simps token_fragment_def is_token_key_test substring0_def)
  qed (use 2 in \<open>simp_all add: List.map_filter_simps token_fragment_def\<close>)
qed

lemma searchObject_auth_visited:
  "searchObject_auth es path authTokens = fold auth_store (visited currentPath_of es path) authTokens"
proof (induction es path authTokens rule: searchObject_auth.induct)
  case (1 path authTokens)
  then show ?case by simp
next
  case (2 key "value" rest path authTokens)
  define cp where "cp = (if path \<noteq> [] then path @ ''.'' @ key else key)"
  define a1 where "a1 = (if list_ex (\<lambda>ak. str_includes (toLowerCase key) ak) authKeys
             then Map_set cp value authTokens else authTokens)"
  define a2 where "a2 = (case value of JObject es \<Rightarrow> searchObject_auth es cp a1 | _ \<Rightarrow> a1)"
  have cp: "cp = currentPath_of path key" by (simp add: cp_def currentPath_of_def)
  have a1: "a1 = auth_store (path, key, value) authTokens"
    by (simp add: a1_def auth_store_def cp is_auth_key_test)
  have a2: "a2 = fold auth_store (case value of JObject es \<Rightarrow> visited currentPath_of es (currentPath_of path key) | _ \<Rightarrow> []) a1"
  proof (cases "value")
    case (JObject es)
    have "searchObject_auth es cp a1 = fold auth_store (visited currentPath_of es cp) a1"
      using 2(1)[OF cp_def a1_def JObject] .
    then show ?thesis by (simp add: a2_def JObject cp)
  qed (simp_all add: a2_def)
  have rest: "searchObject_auth rest path a2 = fold auth_store (visited currentPath_of rest path) a2"
    using 2(2)[OF cp_def a1_def a2_def] .
  have "searchObject_auth ((key, value) # rest) path authTokens = searchObject_auth rest path a2"
    unfolding a2_def a1_def cp_def by (simp only: searchObject_auth.simps Let_def)
  also have "\<dots> = fold auth_store (visited currentPath_of rest path) a2" by (rule rest)
  also have "\<dots> = fold auth_store (visited currentPath_of ((key, value) # rest) path) authTokens"
    unfolding a2 a1 by simp
  finally show ?case .
qed

lemma visited_sound: "x \<in> set (visited ext es path) \<Longrightarrow> visits ext es path x"
proof (induction ext es path rule: visited.induct)
  case (1 ext path)
  then show ?case by simp
next
  case (2 ext key "value" rest path)
  from 2(3) consider "x = (path, key, value)"
    | es where "value = JObject es" "x \<in> set (visited ext es (ext path key))"
    | "x \<in> set (visited ext rest path)"
    by (auto split: json.splits)
  then show ?case
  proof cases
    case 1
    then show ?thesis by (simp add: visits.here)
  next
    case 2
    then have "visits ext es (ext path key) x" using "2.IH"(1) by simp
    then show ?thesis using 2(1) visits.below[of key es "(key, value) # rest" ext path x] by simp
  next
    case 3
    then have "visits ext rest path x" using "2.IH"(2) by simp
    then show ?thesis
    proof cases
      case (here k v)
      then show ?thesis using visits.here[of k v "(key, value) # rest" ext path] by simp
    next
      case (below k es')
      then show ?thesis using visits.below[of k es' "(key, value) # rest" ext path x] by simp
    qed
  qed
qed

lemma visited_here: "(key, value) \<in> set es \<Longrightarrow> (path, key, value) \<in> set (visited ext es path)"
  by (induction ext es path rule: visited.induct) auto

lemma visited_below:
  "(key, JObject es') \<in> set es \<Longrightarrow> x \<in> set (visited ext es' (ext path key)) \<Longrightarrow> x \<in> set (visited ext es path)"
  by (induction ext es path rule: visited.induct) auto

lemma visited_complete: "visits ext es path x \<Longrightarrow> x \<in> set (visited ext es path)"
  by (induction rule: visits.induct) (auto intro: visited_here visited_below)

lemma visited_iff: "x \<in> set (visited ext es path) \<longleftrightarrow> visits ext es path x"
  using visited_sound visited_complete by blast

lemma set_map_filter_iff: "y \<in> set (List.map_filter f xs) \<longleftrightarrow> (\<exists>x\<in>set xs. f x = Some y)"
  by (auto simp: List.map_filter_def image_iff)


lemma frames_needed_pos: "0 < frames_needed es"
  by (induction es rule: frames_needed.induct) auto

lemma searchObject_stack_enough:
  "frames_needed es \<le> f \<Longrightarrow> searchObject_stack f es path toks = Returns (searchObject es path toks)"
proof (induction f es path toks rule: searchObject_stack.induct)
  case (1 es path toks)
  then show ?case using frames_needed_pos[of es] by simp
next
  case (2 frames path toks)
  then show ?case by simp
next
  case (3 frames key "value" rest path toks)
  define t1 where "t1 = (case value of
               JString s \<Rightarrow>
                 (if list_ex (\<lambda>tk. str_includes (toLowerCase key) tk) tokenKeys
                  then Set_add (''payload.'' @ path @ key @ ''='' @ substring0 30 s @ ''...'') toks
                  else toks)
             | _ \<Rightarrow> toks)"
  have rest_le: "frames_needed rest \<le> Suc frames" using "3.prems" by simp
  show ?case
  proof (cases "value")
    case (JObject es)
    have "frames_needed es \<le> frames" using "3.prems" JObject by simp
    then have inner: "searchObject_stack frames es (path @ key @ ''.'') t1 = Returns (searchObject es (path @ key @ ''.'') t1)"
      using "3.IH"(6)[OF t1_def JObject] by simp
    have "searchObject_stack (Suc frames) rest path (searchObject es (path @ key @ ''.'') t1)
          = Returns (searchObject rest path (searchObject es (path @ key @ ''.'') t1))"
      using "3.IH"(7)[OF t1_def JObject inner] rest_le by simp
    then show ?thesis using inner JObject by (simp add: t1_def)
  next
    case JNull
    then show ?thesis using "3.IH"(1)[OF t1_def JNull rest_le] by (simp add: t1_def)
  next
    case (JBool b)
    then show ?thesis using "3.IH"(2)[OF t1_def JBool rest_le] by (simp add: t1_def)
  next
    case (JNumber r)
    then show ?thesis using "3.IH"(3)[OF t1_def JNumber rest_le] by (simp add: t1_def)
  next
    case (JString str)
    then show ?thesis using "3.IH"(4)[OF t1_def JString rest_le] by (simp add: t1_def)
  next
    case (JArray xs)
    then show ?thesis using "3.IH"(5)[OF t1_def JArray rest_le] by (simp add: t1_def)
  qed
qed

lemma searchObject_stack_short:
  "f < frames_needed es \<Longrightarrow> threw (searchObject_stack f es path toks)"
proof (induction f es path toks rule: searchObject_stack.induct)
  case (1 es path toks)
  then show ?case by simp
next
  case (2 frames path toks)
  then show ?case by simp
next
  case (3 frames key "value" rest path toks)
  define t1 where "t1 = (case value of
               JString s \<Rightarrow>
                 (if list_ex (\<lambda>tk. str_includes (toLowerCase key) tk) tokenKeys
                  then Set_add (''payload.'' @ path @ key @ ''='' @ substring0 30 s @ ''...'') toks
                  else toks)
             | _ \<Rightarrow> toks)"
  show ?case
  proof (cases "value")
    case (JObject es)
    show ?thesis
    proof (cases "searchObject_stack frames es (path @ key @ ''.'') t1")
      case (RangeError t)
      then show ?thesis using JObject by (simp add: t1_def)
    next
      case (Returns t2)
      have "\<not> frames < frames_needed es"
        using "3.IH"(6)[OF t1_def JObject] Returns by auto
      then have "Suc frames < frames_needed rest" using "3.prems" JObject by simp
      then have "threw (searchObject_stack (Suc frames) rest path t2)"
        using "3.IH"(7)[OF t1_def JObject Returns] by simp
      then show ?thesis using JObject Returns by (simp add: t1_def)
    qed
  next
    case JNull
    then have "Suc frames < frames_needed rest" using "3.prems" frames_needed_pos[of rest] by simp
    then show ?thesis using JNull "3.IH"(1)[OF t1_def JNull] by (simp add: t1_def)
  next
    case (JBool b)
    then have "Suc frames < frames_needed rest" using "3.prems" frames_needed_pos[of rest] by simp
    then show ?thesis using JBool "3.IH"(2)[OF t1_def JBool] by (simp add: t1_def)
  next
    case (JNumber r)
    then have "Suc frames < frames_needed rest" using "3.prems" frames_needed_pos[of rest] by simp
    then show ?thesis using JNumber "3.IH"(3)[OF t1_def JNumber] by (simp add: t1_def)
  next
    case (JString str)
    then have "Suc frames < frames_needed rest" using "3.prems" frames_needed_pos[of rest] by simp
    then show ?thesis using JString "3.IH"(4)[OF t1_def JString] by (simp add: t1_def)
  next
    case (JArray xs)
    then have "Suc frames < frames_needed rest" using "3.prems" frames_needed_pos[of rest] by simp
    then show ?thesis using JArray "3.IH"(5)[OF t1_def JArray] by (simp add: t1_def)
  qed
qed

lemma frames_needed_nest: "frames_needed (nest n es) = n + frames_needed es"
  by (induction n) simp_all

lemma searchObject_auth_stack_enough:
  "frames_needed es \<le> f \<Longrightarrow> searchObject_auth_stack f es path toks = Returns (searchObject_auth es path toks)"
proof (induction f es path toks rule: searchObject_auth_stack.induct)
  case (1 es path toks)
  then show ?case using frames_needed_pos[of es] by simp
next
  case (2 frames path toks)
  then show ?case by simp
next
  case (3 frames key "value" rest path toks)
  define cp where "cp = (if path \<noteq> [] then path @ ''.'' @ key else key)"
  define t1 where "t1 = (if list_ex (\<lambda>ak. str_includes (toLowerCase key) ak) authKeys
             then Map_set cp value toks else toks)"
  have rest_le: "frames_needed rest \<le> Suc frames" using "3.prems" by simp
  show ?case
  proof (cases "value")
    case (JObject es)
    have s1: "searchObject_auth_stack (Suc frames) ((key, value) # rest) path toks
        = (case searchObject_auth_stack frames es cp t1 of
             RangeError t \<Rightarrow> RangeError t
           | Returns t \<Rightarrow> searchObject_auth_stack (Suc frames) rest path t)"
      unfolding t1_def cp_def JObject by (simp add: Let_def)
    have u1: "searchObject_auth ((key, value) # rest) path toks
        = searchObject_auth rest path (searchObject_auth es cp t1)"
      unfolding t1_def cp_def JObject by (simp add: Let_def)
    have "frames_needed es \<le> frames" using "3.prems" JObject by simp
    then have inner: "searchObject_auth_stack frames es cp t1 = Returns (searchObject_auth es cp t1)"
      using "3.IH"(6)[OF cp_def t1_def JObject] by simp
    have "searchObject_auth_stack (Suc frames) rest path (searchObject_auth es cp t1)
          = Returns (searchObject_auth rest path (searchObject_auth es cp t1))"
      using "3.IH"(7)[OF cp_def t1_def JObject inner] rest_le by simp
    then show ?thesis by (simp only: s1 u1 inner outcome.case)
  next
    case JNull
    have s1: "searchObject_auth_stack (Suc frames) ((key, value) # rest) path toks
        = searchObject_auth_stack (Suc frames) rest path t1"
      unfolding t1_def cp_def JNull by (simp add: Let_def)
    have u1: "searchObject_auth ((key, value) # rest) path toks = searchObject_auth rest path t1"
      unfolding t1_def cp_def JNull by (simp add: Let_def)
    show ?thesis using "3.IH"(1)[OF cp_def t1_def JNull rest_le] by (simp only: s1 u1)
  next
    case (JBool b)
    have s1: "searchObject_auth_stack (Suc frames) ((key, value) # rest) path toks
        = searchObject_auth_stack (Suc frames) rest path t1"
      unfolding t1_def cp_def JBool by (simp add: Let_def)
    have u1: "searchObject_auth ((key, value) # rest) path toks = searchObject_auth rest path t1"
      unfolding t1_def cp_def JBool by (simp add: Let_def)
    show ?thesis using "3.IH"(2)[OF cp_def t1_def JBool rest_le] by (simp only: s1 u1)
  next
    case (JNumber r)
    have s1: "searchObject_auth_stack (Suc frames) ((key, value) # rest) path toks
        = searchObject_auth_stack (Suc frames) rest path t1"
      unfolding t1_def cp_def JNumber by (simp add: Let_def)
    have u1: "searchObject_auth ((key, value) # rest) path toks = searchObject_auth rest path t1"
      unfolding t1_def cp_def JNumber by (simp add: Let_def)
    show ?thesis using "3.IH"(3)[OF cp_def t1_def JNumber rest_le] by (simp only: s1 u1)
  next
    case (JString str)
    have s1: "searchObject_auth_stack (Suc frames) ((key, value) # rest) path toks
        = searchObject_auth_stack (Suc frames) rest path t1"
      unfolding t1_def cp_def JString by (simp add: Let_def)
    have u1: "searchObject_auth ((key, value) # rest) path toks = searchObject_auth rest path t1"
      unfolding t1_def cp_def JString by (simp add: Let_def)
    show ?thesis using "3.IH"(4)[OF cp_def t1_def JString rest_le] by (simp only: s1 u1)
  next
    case (JArray xs)
    have s1: "searchObject_auth_stack (Suc frames) ((key, value) # rest) path toks
        = searchObject_auth_stack (Suc frames) rest path t1"
      unfolding t1_def cp_def JArray by (simp add: Let_def)
    have u1: "searchObject_auth ((key, value) # rest) path toks = searchObject_auth rest path t1"
      unfolding t1_def cp_def JArray by (simp add: Let_def)
    show ?thesis using "3.IH"(5)[OF cp_def t1_def JArray rest_le] by (simp only: s1 u1)
  qed
qed

lemma searchObject_auth_stack_short:
  "f < frames_needed es \<Longrightarrow> threw (searchObject_auth_stack f es path toks)"
proof (induction f es path toks rule: searchObject_auth_stack.induct)
  case (1 es path toks)
  then show ?case by simp
next
  case (2 frames path toks)
  then show ?case by simp
next
  case (3 frames key "value" rest path toks)
  define cp where "cp = (if path \<noteq> [] then path @ ''.'' @ key else key)"
  define t1 where "t1 = (if list_ex (\<lambda>ak. str_includes (toLowerCase key) ak) authKeys
             then Map_set cp value toks else toks)"
  show ?case
  proof (cases "value")
    case (JObject es)
    have s1: "searchObject_auth_stack (Suc frames) ((key, value) # rest) path toks
        = (case searchObject_auth_stack frames es cp t1 of
             RangeError t \<Rightarrow> RangeError t
           | Returns t \<Rightarrow> searchObject_auth_stack (Suc frames) rest path t)"
      unfolding t1_def cp_def JObject by (simp add: Let_def)
    show ?thesis
    proof (cases "searchObject_auth_stack frames es cp t1")
      case (RangeError t)
      then show ?thesis by (simp only: s1 outcome.case threw.simps)
    next
      case (Returns t2)
      have "\<not> frames < frames_needed es"
        using "3.IH"(6)[OF cp_def t1_def JObject] Returns by auto
      then have "Suc frames < frames_needed rest" using "3.prems" JObject by simp
      then have "threw (searchObject_auth_stack (Suc frames) rest path t2)"
        using "3.IH"(7)[OF cp_def t1_def JObject Returns] by simp
      then show ?thesis by (simp only: s1 Returns outcome.case)
    qed
  next
    case JNull
    have s1: "searchObject_auth_stack (Suc frames) ((key, value) # rest) path toks
        = searchObject_auth_stack (Suc frames) rest path t1"
      unfolding t1_def cp_def JNull by (simp add: Let_def)
    have "Suc frames < frames_needed rest" using "3.prems" JNull frames_needed_pos[of rest] by simp
    then show ?thesis using "3.IH"(1)[OF cp_def t1_def JNull] by (simp only: s1)
  next
    case (JBool b)
    have s1: "searchObject_auth_stack (Suc frames) ((key, value) # rest) path toks
        = searchObject_auth_stack (Suc frames) rest path t1"
      unfolding t1_def cp_def JBool by (simp add: Let_def)
    have "Suc frames < frames_needed rest" using "3.prems" JBool frames_needed_pos[of rest] by simp
    then show ?thesis using "3.IH"(2)[OF cp_def t1_def JBool] by (simp only: s1)
  next
    case (JNumber r)
    have s1: "searchObject_auth_stack (Suc frames) ((key, value) # rest) path toks
        = searchObject_auth_stack (Suc frames) rest path t1"
      unfolding t1_def cp_def JNumber by (simp add: Let_def)
    have "Suc frames < frames_needed rest" using "3.prems" JNumber frames_needed_pos[of rest] by simp
    then show ?thesis using "3.IH"(3)[OF cp_def t1_def JNumber] by (simp only: s1)
  next
    case (JString str)
    have s1: "searchObject_auth_stack (Suc frames) ((key, value) # rest) path toks
        = searchObject_auth_stack (Suc frames) rest path t1"
      unfolding t1_def cp_def JString by (simp add: Let_def)
    have "Suc frames < frames_needed rest" using "3.prems" JString frames_needed_pos[of rest] by simp
    then show ?thesis using "3.IH"(4)[OF cp_def t1_def JString] by (simp only: s1)
  next
    case (JArray xs)
    have s1: "searchObject_auth_stack (Suc frames) ((key, value) # rest) path toks
        = searchObject_auth_stack (Suc frames) rest path t1"
      unfolding t1_def cp_def JArray by (simp add: Let_def)
    have "Suc frames < frames_needed rest" using "3.prems" JArray frames_needed_pos[of rest] by simp
    then show ?thesis using "3.IH"(5)[OF cp_def t1_def JArray] by (simp only: s1)
  qed
qed

lemma searchObject_auth_nest:
  "searchObject_auth (nest n [(''token'', JString v)]) [] authTokens
     = Map_set (concat (replicate n ''a.'') @ ''token'') (JString v) authTokens"
proof (cases n)
  case 0
  then show ?thesis using token_is_auth by simp
next
  case (Suc m)
  then show ?thesis using a_not_auth searchObject_auth_nest_path[of "''a''" m v authTokens] by simp
qed

lemma token_visited_stored:
  assumes "visits ext_payload es path (p, key, JString s)" and "is_token_key key"
  shows "''payload.'' @ p @ key @ ''='' @ take 30 s @ ''...'' \<in> set (searchObject es path toks)"
proof -
  have "(p, key, JString s) \<in> set (visited ext_payload es path)" using assms(1) by (simp add: visited_iff)
  moreover have "token_fragment (p, key, JString s) = Some (''payload.'' @ p @ key @ ''='' @ take 30 s @ ''...'')"
    using assms(2) by (simp add: token_fragment_def)
  ultimately have "''payload.'' @ p @ key @ ''='' @ take 30 s @ ''...''
      \<in> set (List.map_filter token_fragment (visited ext_payload es path))"
    unfolding set_map_filter_iff by blast
  then show ?thesis by (simp add: searchObject_visited set_fold_Set_add)
qed


lemma keys_auth_store_mono: "fst ` set t \<subseteq> fst ` set (auth_store x t)"
  by (auto simp: auth_store_def keys_Map_set)

lemma keys_fold_auth_store_mono: "fst ` set t \<subseteq> fst ` set (fold auth_store xs t)"
proof (induction xs arbitrary: t)
  case Nil
  then show ?case by simp
next
  case (Cons x xs)
  show ?case using keys_auth_store_mono[of t x] Cons.IH[of "auth_store x t"] by auto
qed

lemma keys_fold_auth_store:
  "(p, key, v) \<in> set xs \<Longrightarrow> is_auth_key key \<Longrightarrow> currentPath_of p key \<in> fst ` set (fold auth_store xs t)"
proof (induction xs arbitrary: t)
  case Nil
  then show ?case by simp
next
  case (Cons x xs)
  show ?case
  proof (cases "x = (p, key, v)")
    case True
    then have "currentPath_of p key \<in> fst ` set (auth_store x t)"
      using Cons.prems(2) by (simp add: auth_store_def keys_Map_set)
    then show ?thesis using keys_fold_auth_store_mono[of "auth_store x t" xs] by auto
  next
    case False
    then have "(p, key, v) \<in> set xs" using Cons.prems(1) by simp
    then show ?thesis using Cons.IH[of "auth_store x t"] Cons.prems(2) by simp
  qed
qed

lemma auth_visited_stored:
  assumes "visits currentPath_of es path (p, key, v)" and "is_auth_key key"
  shows "currentPath_of p key \<in> fst ` set (searchObject_auth es path authTokens)"
  using assms keys_fold_auth_store[of p key v "visited currentPath_of es path" authTokens]
  by (simp add: searchObject_auth_visited visited_iff)

lemma extractTokensFromPayload_entries:
  "extractTokensFromPayload payload ep = ep\<lparr>ep_tokens := searchObject (Object_entries payload) [] (ep_tokens ep)\<rparr>"
  by (cases payload) (simp_all add: extractTokensFromPayload_def Object_entries_def)

lemma extractAuthFromPayload_entries:
  "extractAuthFromPayload payload authTokens = searchObject_auth (Object_entries payload) [] authTokens"
  by (cases payload) (simp_all add: extractAuthFromPayload_def Object_entries_def)

lemma extractTokensFromPayload_stack_enough:
  "stack_needed payload \<le> frames \<Longrightarrow>
     extractTokensFromPayload_stack frames payload ep = Returns (extractTokensFromPayload payload ep)"
  by (cases payload)
     (simp_all add: extractTokensFromPayload_stack_def extractTokensFromPayload_def stack_needed_def
        searchObject_stack_enough)

lemma extractAuthFromPayload_stack_enough:
  "stack_needed payload \<le> frames \<Longrightarrow>
     extractAuthFromPayload_stack frames payload authTokens = Returns (extractAuthFromPayload payload authTokens)"
  by (cases payload)
     (simp_all add: extractAuthFromPayload_stack_def extractAuthFromPayload_def stack_needed_def
        searchObject_auth_stack_enough)

lemma threw_case:
  "threw (case r of Returns t \<Rightarrow> Returns (f t) | RangeError t \<Rightarrow> RangeError (g t)) = threw r"
  by (cases r) simp_all

lemma extractTokensFromPayload_stack_short:
  "frames < stack_needed payload \<Longrightarrow> threw (extractTokensFromPayload_stack frames payload ep)"
  by (cases payload)
     (simp_all add: extractTokensFromPayload_stack_def stack_needed_def threw_case searchObject_stack_short)

lemma extractAuthFromPayload_stack_short:
  "frames < stack_needed payload \<Longrightarrow> threw (extractAuthFromPayload_stack frames payload authTokens)"
  by (cases payload)
     (simp_all add: extractAuthFromPayload_stack_def stack_needed_def searchObject_auth_stack_short)

lemma stack_needed_nest: "stack_needed (JObject (nest n [(k, JString v)])) = Suc n"
  by (simp add: stack_needed_def frames_needed_nest)

subsection \<open>Re-applying an event that finds its exchange\<close>




lemma list_ex_modify_first_id:
  "(\<And>x. i (f x) = i x) \<Longrightarrow> list_ex (\<lambda>x. i x = rid) (modify_first Q f xs) = list_ex (\<lambda>x. i x = rid) xs"
  by (induction xs) auto















subsection \<open>Resource-type filter\<close>

text \<open>
  C10. A \<open>requestWillBeSent\<close> or \<open>responseReceived\<close> event whose resource type is neither
  \<open>Fetch\<close> nor \<open>XHR\<close> leaves the whole state, so the \<open>endpoints\<close> Map, unchanged:
  both handlers return before touching anything.
\<close>

theorem non_fetch_xhr_ignored:
  "(p_type p \<noteq> ''Fetch'' \<and> p_type p \<noteq> ''XHR'' \<longrightarrow> captureRequest U J now p s = s)
   \<and> (r_type r \<noteq> ''Fetch'' \<and> r_type r \<noteq> ''XHR'' \<longrightarrow> captureResponse now r s = s)"
  by (simp add: captureRequest_def captureResponse_def)

theorem non_fetch_xhr_ignored_witness:
  "captureRequest URL_simple JSON_none ''t1'' (req1\<lparr>p_type := ''Document''\<rparr>) state1 = state1
   \<and> captureResponse ''t1'' ((resp_for ''1'')\<lparr>r_type := ''Image''\<rparr>) state1 = state1"
  using non_fetch_xhr_ignored[of "req1\<lparr>p_type := ''Document''\<rparr>" URL_simple JSON_none "''t1''" state1
      "(resp_for ''1'')\<lparr>r_type := ''Image''\<rparr>"]
  by simp

subsection \<open>Re-applying an enrichment event\<close>




subsection \<open>Enrichment events for an unknown request id\<close>

text \<open>
  C7, as the code has it. An enrichment event whose request id is found in no endpoint
  (no recorded request and no recorded response carries it) is dropped: each of the four
  enrichment handlers returns the state it was given, and no entry is created.
\<close>

theorem orphan_enrichment_dropped:
  assumes "\<forall>ke\<in>set (endpoints s). \<not> hasRequest rid (snd ke) \<and> \<not> hasResponse rid (snd ke)"
    and "x_requestId x = rid" and "r_requestId r = rid" and "y_requestId y = rid" and "l_requestId l = rid"
  shows "captureRequestHeaders x s = s \<and> captureResponse now r s = s
       \<and> captureResponseHeaders y s = s \<and> captureResponseBody J P l s = s"
  using assms
  by (simp add: captureRequestHeaders_def captureResponse_def captureResponseHeaders_def
      captureResponseBody_def forFirstEndpoint_none split: option.splits prod.splits)

theorem orphan_enrichment_dropped_witness:
  "captureRequestHeaders (extra_for ''2'') state1 = state1
   \<and> captureResponse ''t1'' (resp_for ''2'') state1 = state1
   \<and> captureResponseHeaders (rextra_for ''2'') state1 = state1
   \<and> captureResponseBody JSON_none (\<lambda>v. JNull) (body_for ''2'') state1 = state1"
proof -
  have h: "\<forall>ke\<in>set (endpoints state1). \<not> hasRequest ''2'' (snd ke) \<and> \<not> hasResponse ''2'' (snd ke)"
    by code_simp
  show ?thesis
    using orphan_enrichment_dropped[OF h, of "extra_for ''2''" "resp_for ''2''" "rextra_for ''2''" "body_for ''2''"]
    by (simp add: extra_for_def resp_for_def rextra_for_def body_for_def)
qed

text \<open>
  C7 as stated fails: the state holds one endpoint, with request \<open>1\<close>; a
  \<open>responseReceived\<close> and a \<open>requestWillBeSentExtraInfo\<close> event for the unknown id \<open>2\<close>
  leave the Map as it was, so nothing was synthesised from them.
\<close>

theorem orphan_enrichment_counterexample:
  "map fst (endpoints state1) = [''GET /api/users/123'']
   \<and> endpoints (captureResponse ''t1'' (resp_for ''2'') state1) = endpoints state1
   \<and> endpoints (captureRequestHeaders (extra_for ''2'') state1) = endpoints state1"
  by code_simp
subsection \<open>Growth of the examples list\<close>

text \<open>
  C3, as the code has it. Neither class caps \<open>examples\<close>: a URL is appended whenever
  the list does not hold it yet. After ingesting, from the start, requests with pairwise
  distinct URLs that all land on one key, the examples of that key are exactly those
  URLs in order of arrival, so the list is as long as the number of requests.
\<close>

theorem examples_grow_without_cap:
  "((\<forall>p\<in>set ps. lands_ultimate U p k) \<and> distinct (map p_url ps) \<longrightarrow>
      examples_ultimate k (fold (captureRequest_ultimate U J Q) ps ultimate_init) = map p_url ps)
   \<and> ((\<forall>um\<in>set ums. lands_universal U um k') \<and> distinct (map fst ums) \<longrightarrow>
      examples_universal k' (fold (\<lambda>um. onRequest_universal U (fst um) (snd um)) ums universal_init) = map fst ums)"
proof -
  have "examples_ultimate k ultimate_init = []"
    by (simp add: examples_ultimate_def ultimate_init_def Map_get_def)
  then have a: "(\<forall>p\<in>set ps. lands_ultimate U p k) \<and> distinct (map p_url ps) \<longrightarrow>
     examples_ultimate k (fold (captureRequest_ultimate U J Q) ps ultimate_init) = map p_url ps"
    using fold_Set_add_distinct[of "[]" "map p_url ps"] by (simp add: examples_ultimate_fold)
  have "examples_universal k' universal_init = []" "consistent_universal universal_init"
    by (simp_all add: examples_universal_def universal_init_def Map_get_def consistent_universal_def)
  then have b: "(\<forall>um\<in>set ums. lands_universal U um k') \<and> distinct (map fst ums) \<longrightarrow>
     examples_universal k' (fold (\<lambda>um. onRequest_universal U (fst um) (snd um)) ums universal_init) = map fst ums"
    using fold_Set_add_distinct[of "[]" "map fst ums"] by (simp add: examples_universal_fold)
  from a b show ?thesis by blast
qed

theorem examples_grow_without_cap_witness:
  "length (examples_ultimate ''GET https://x.com/api/users/{id}''
      (fold (captureRequest_ultimate URL_simple JSON_none (\<lambda>d. [])) (map user_req [1..<12]) ultimate_init)) = 11
   \<and> length (examples_universal ''GET https://x.com/api/users/{id}''
      (fold (\<lambda>um. onRequest_universal URL_simple (fst um) (snd um)) (map user_url [1..<12]) universal_init)) = 11"
proof -
  have h1: "(\<forall>p\<in>set (map user_req [1..<12]). lands_ultimate URL_simple p ''GET https://x.com/api/users/{id}'')
            \<and> distinct (map p_url (map user_req [1..<12]))"
    by code_simp
  have h2: "(\<forall>um\<in>set (map user_url [1..<12]). lands_universal URL_simple um ''GET https://x.com/api/users/{id}'')
            \<and> distinct (map fst (map user_url [1..<12]))"
    by code_simp
  show ?thesis
    using examples_grow_without_cap[of "map user_req [1..<12]" URL_simple "''GET https://x.com/api/users/{id}''"
        JSON_none "\<lambda>d. []" "map user_url [1..<12]" "''GET https://x.com/api/users/{id}''"] h1 h2
    by simp
qed

text \<open>
  C3 as stated fails for a cap of 10: after the eleven requests for
  \<open>/api/users/1\<close> to \<open>/api/users/11\<close> the single endpoint has eleven examples.
\<close>

theorem examples_cap_counterexample:
  "map (\<lambda>ke. (fst ke, length (ud_examples (snd ke))))
     (ud_endpoints (fold (captureRequest_ultimate URL_simple JSON_none (\<lambda>d. [])) (map user_req [1..<12]) ultimate_init))
   = [(''GET https://x.com/api/users/{id}'', 11)]"
  by code_simp

subsection \<open>Round trip of the examples\<close>

text \<open>
  C6. In every state that the handlers of UltimateDevToolsRecon can reach, and in every
  state that the request listener of UniversalEndpointRecon can reach, every endpoint is
  stored under the key made of its own method and pattern, and every URL in its
  \<open>examples\<close> parses and templates, with that method, to that key.
\<close>

theorem examples_template_to_own_key:
  "(reachable_ultimate U J Q s \<longrightarrow> roundtrip_ultimate U s)
   \<and> (reachable_universal U s' \<longrightarrow> roundtrip_universal U s')"
  using ud_ok_reachable[of U J Q s] un_ok_reachable[of U s']
  by (simp add: roundtrip_ultimate_def roundtrip_universal_def ud_ok_def un_ok_def)

theorem examples_template_to_own_key_witness:
  "roundtrip_ultimate URL_simple ultimate_two
   \<and> map (\<lambda>ke. ud_examples (snd ke)) (ud_endpoints ultimate_two)
       = [[''https://x.com/api/users/123'', ''https://x.com/api/users/456'']]
   \<and> roundtrip_universal URL_simple universal_two
   \<and> map (\<lambda>ke. un_examples (snd ke)) (un_endpoints universal_two)
       = [[''https://x.com/api/users/123'', ''https://x.com/api/users/456'']]"
proof -
  have t: "http_token (p_method (user_req 123))" "http_token (p_method (user_req 456))" "http_token ''GET''"
    by (simp_all add: http_token_def user_req_def req1_def)
  have r1: "reachable_ultimate URL_simple JSON_none (\<lambda>d. []) ultimate_two"
    unfolding ultimate_two_def by (simp add: ru_init ru_request t)
  have r2: "reachable_universal URL_simple universal_two"
    unfolding universal_two_def by (simp add: rv_init rv_request t user_url_def)
  have e1: "map (\<lambda>ke. ud_examples (snd ke)) (ud_endpoints ultimate_two)
       = [[''https://x.com/api/users/123'', ''https://x.com/api/users/456'']]"
    by code_simp
  have e2: "map (\<lambda>ke. un_examples (snd ke)) (un_endpoints universal_two)
       = [[''https://x.com/api/users/123'', ''https://x.com/api/users/456'']]"
    by code_simp
  show ?thesis
    using examples_template_to_own_key[of URL_simple JSON_none "\<lambda>d. []" ultimate_two universal_two] r1 r2 e1 e2
    by simp
qed

subsection \<open>The credential walk\<close>

text \<open>
  C9, as the code has it. Neither walk has a depth bound; the call stack is the only
  limit. With room for as many activations as the payload has levels, each extractor
  returns what the unlimited walk computes; with less room it throws \<open>RangeError\<close>.
  Every entry that is reached from the entries of the payload through values that are
  objects and not arrays is visited, at whatever depth: a string entry whose key is a
  token key puts its fragment into the token Set, and an entry whose key is an auth key
  puts its dotted path among the keys of \<open>authTokens\<close>. So for every \<open>n\<close> that the
  stack allows, a \<open>token\<close> field below \<open>n\<close> nested objects is extracted.
\<close>

theorem credential_walk_limited_by_stack_only:
  "(stack_needed payload \<le> frames \<longrightarrow>
      extractTokensFromPayload_stack frames payload ep = Returns (extractTokensFromPayload payload ep)
      \<and> extractAuthFromPayload_stack frames payload authTokens
          = Returns (extractAuthFromPayload payload authTokens))
   \<and> (frames < stack_needed payload \<longrightarrow>
      threw (extractTokensFromPayload_stack frames payload ep)
      \<and> threw (extractAuthFromPayload_stack frames payload authTokens))
   \<and> (visits ext_payload (Object_entries payload) [] (p, key, JString s) \<and> is_token_key key \<longrightarrow>
      ''payload.'' @ p @ key @ ''='' @ take 30 s @ ''...''
        \<in> set (ep_tokens (extractTokensFromPayload payload ep)))
   \<and> (visits currentPath_of (Object_entries payload) [] (p', key', v') \<and> is_auth_key key' \<longrightarrow>
      currentPath_of p' key' \<in> fst ` set (extractAuthFromPayload payload authTokens))
   \<and> (n < frames \<longrightarrow>
      extractTokensFromPayload_stack frames (JObject (nest n [(''token'', JString v)])) ep
        = Returns (ep\<lparr>ep_tokens :=
            Set_add (''payload.'' @ concat (replicate n ''a.'') @ ''token='' @ take 30 v @ ''...'') (ep_tokens ep)\<rparr>)
      \<and> extractAuthFromPayload_stack frames (JObject (nest n [(''token'', JString v)])) authTokens
        = Returns (Map_set (concat (replicate n ''a.'') @ ''token'') (JString v) authTokens))"
proof -
  have a: "stack_needed payload \<le> frames \<longrightarrow>
      extractTokensFromPayload_stack frames payload ep = Returns (extractTokensFromPayload payload ep)
      \<and> extractAuthFromPayload_stack frames payload authTokens
          = Returns (extractAuthFromPayload payload authTokens)"
    by (simp add: extractTokensFromPayload_stack_enough extractAuthFromPayload_stack_enough)
  have b: "frames < stack_needed payload \<longrightarrow>
      threw (extractTokensFromPayload_stack frames payload ep)
      \<and> threw (extractAuthFromPayload_stack frames payload authTokens)"
    by (simp add: extractTokensFromPayload_stack_short extractAuthFromPayload_stack_short)
  have c: "visits ext_payload (Object_entries payload) [] (p, key, JString s) \<and> is_token_key key \<longrightarrow>
      ''payload.'' @ p @ key @ ''='' @ take 30 s @ ''...''
        \<in> set (ep_tokens (extractTokensFromPayload payload ep))"
    using token_visited_stored[of "Object_entries payload" "[]" p key s "ep_tokens ep"]
    by (simp add: extractTokensFromPayload_entries)
  have d: "visits currentPath_of (Object_entries payload) [] (p', key', v') \<and> is_auth_key key' \<longrightarrow>
      currentPath_of p' key' \<in> fst ` set (extractAuthFromPayload payload authTokens)"
    using auth_visited_stored[of "Object_entries payload" "[]" p' key' v' authTokens]
    by (simp add: extractAuthFromPayload_entries)
  have e: "n < frames \<longrightarrow>
      extractTokensFromPayload_stack frames (JObject (nest n [(''token'', JString v)])) ep
        = Returns (ep\<lparr>ep_tokens :=
            Set_add (''payload.'' @ concat (replicate n ''a.'') @ ''token='' @ take 30 v @ ''...'') (ep_tokens ep)\<rparr>)
      \<and> extractAuthFromPayload_stack frames (JObject (nest n [(''token'', JString v)])) authTokens
        = Returns (Map_set (concat (replicate n ''a.'') @ ''token'') (JString v) authTokens)"
  proof
    assume "n < frames"
    then have le: "stack_needed (JObject (nest n [(''token'', JString v)])) \<le> frames"
      by (simp add: stack_needed_nest)
    have t: "extractTokensFromPayload (JObject (nest n [(''token'', JString v)])) ep
        = ep\<lparr>ep_tokens :=
            Set_add (''payload.'' @ concat (replicate n ''a.'') @ ''token='' @ take 30 v @ ''...'') (ep_tokens ep)\<rparr>"
      using searchObject_nest[of n v "[]" "ep_tokens ep"] by (simp add: extractTokensFromPayload_def)
    have u: "extractAuthFromPayload (JObject (nest n [(''token'', JString v)])) authTokens
        = Map_set (concat (replicate n ''a.'') @ ''token'') (JString v) authTokens"
      using searchObject_auth_nest[of n v authTokens] by (simp add: extractAuthFromPayload_def)
    show "extractTokensFromPayload_stack frames (JObject (nest n [(''token'', JString v)])) ep
        = Returns (ep\<lparr>ep_tokens :=
            Set_add (''payload.'' @ concat (replicate n ''a.'') @ ''token='' @ take 30 v @ ''...'') (ep_tokens ep)\<rparr>)
      \<and> extractAuthFromPayload_stack frames (JObject (nest n [(''token'', JString v)])) authTokens
        = Returns (Map_set (concat (replicate n ''a.'') @ ''token'') (JString v) authTokens)"
      using extractTokensFromPayload_stack_enough[OF le, of ep]
        extractAuthFromPayload_stack_enough[OF le, of authTokens] t u by simp
  qed
  show ?thesis using a b c d e by blast
qed

text \<open>
  On a payload with eleven nested objects, twelve activations are enough and eleven are
  not; in the mixed payload, the \<open>access_token\<close> below \<open>user\<close> is extracted.
\<close>

theorem credential_walk_limited_by_stack_only_witness:
  "extractTokensFromPayload_stack 12 deep_payload (newEndpoint req1 (url_x ''/api/users/123''))
     = Returns ((newEndpoint req1 (url_x ''/api/users/123''))
         \<lparr>ep_tokens := [''payload.a.a.a.a.a.a.a.a.a.a.a.token=abcdefghijklmnopqrstuvwxyz...'']\<rparr>)
   \<and> extractAuthFromPayload_stack 12 deep_payload []
     = Returns [(''a.a.a.a.a.a.a.a.a.a.a.token'', JString ''abcdefghijklmnopqrstuvwxyz'')]
   \<and> threw (extractTokensFromPayload_stack 11 deep_payload (newEndpoint req1 (url_x ''/api/users/123'')))
   \<and> threw (extractAuthFromPayload_stack 11 deep_payload [])
   \<and> ''payload.user.access_token=0123456789...''
        \<in> set (ep_tokens (extractTokensFromPayload mixed_payload (newEndpoint req1 (url_x ''/api/users/123''))))
   \<and> ''user.access_token'' \<in> fst ` set (extractAuthFromPayload mixed_payload [])"
proof -
  have n: "stack_needed deep_payload = 12"
    by code_simp
  have r: "extractTokensFromPayload deep_payload (newEndpoint req1 (url_x ''/api/users/123''))
       = (newEndpoint req1 (url_x ''/api/users/123''))
           \<lparr>ep_tokens := [''payload.a.a.a.a.a.a.a.a.a.a.a.token=abcdefghijklmnopqrstuvwxyz...'']\<rparr>"
    "extractAuthFromPayload deep_payload []
       = [(''a.a.a.a.a.a.a.a.a.a.a.token'', JString ''abcdefghijklmnopqrstuvwxyz'')]"
    by code_simp+
  have m: "(''user.'', ''access_token'', JString ''0123456789'')
        \<in> set (visited ext_payload (Object_entries mixed_payload) [])"
    "(''user'', ''access_token'', JString ''0123456789'')
        \<in> set (visited currentPath_of (Object_entries mixed_payload) [])"
    by code_simp+
  have k: "is_token_key ''access_token''" "is_auth_key ''access_token''"
    by code_simp+
  have c: "currentPath_of ''user'' ''access_token'' = ''user.access_token''"
    by (simp add: currentPath_of_def)
  show ?thesis
    using credential_walk_limited_by_stack_only[where payload = deep_payload and frames = 12
        and ep = "newEndpoint req1 (url_x ''/api/users/123'')" and authTokens = "[]"]
      credential_walk_limited_by_stack_only[where payload = deep_payload and frames = 11
        and ep = "newEndpoint req1 (url_x ''/api/users/123'')" and authTokens = "[]"]
      credential_walk_limited_by_stack_only[where payload = mixed_payload
        and ep = "newEndpoint req1 (url_x ''/api/users/123'')" and authTokens = "[]"
        and p = "''user.''" and key = "''access_token''" and s = "''0123456789''"
        and p' = "''user''" and key' = "''access_token''" and v' = "JString ''0123456789''"]
      n r m k c
    by (simp add: visited_iff)
qed

text \<open>
  C9 as stated fails for a bound of 10: a \<open>token\<close> field below eleven nested objects is
  extracted by both walks.
\<close>

theorem depth_bound_counterexample:
  "ep_tokens (extractTokensFromPayload deep_payload (newEndpoint req1 (url_x ''/api/users/123'')))
     = [''payload.a.a.a.a.a.a.a.a.a.a.a.token=abcdefghijklmnopqrstuvwxyz...'']
   \<and> extractAuthFromPayload deep_payload []
     = [(''a.a.a.a.a.a.a.a.a.a.a.token'', JString ''abcdefghijklmnopqrstuvwxyz'')]"
  by code_simp

subsection \<open>What the extractors store\<close>



subsection \<open>Numeric segments\<close>

text \<open>
  The example of C1: both templaters reduce \<open>GET https://x.com/api/users/123\<close> and
  \<open>GET https://x.com/api/users/456\<close> to the key \<open>GET https://x.com/api/users/{id}\<close>.
\<close>

theorem users_example_same_key:
  "endpointKey_of extractEndpointPattern ''GET'' (url_x ''/api/users/123'') = ''GET https://x.com/api/users/{id}''
   \<and> endpointKey_of extractEndpointPattern ''GET'' (url_x ''/api/users/456'') = ''GET https://x.com/api/users/{id}''
   \<and> endpointKey_of extractEndpointPattern_universal ''GET'' (url_x ''/api/users/123'') = ''GET https://x.com/api/users/{id}''
   \<and> endpointKey_of extractEndpointPattern_universal ''GET'' (url_x ''/api/users/456'') = ''GET https://x.com/api/users/{id}''"
  by code_simp

text \<open>
  Two paths that differ only in one segment made of decimal digits get the same pattern
  from both templaters: the first replacement maps both to the same string.
\<close>

theorem numeric_segments_same_pattern:
  assumes "d1 \<noteq> []" "list_all is_digit d1" "d2 \<noteq> []" "list_all is_digit d2"
    and "post = [] \<or> hd post = CHR ''/''"
  shows "extractEndpointPattern (u\<lparr>pathname := pre @ ''/'' @ d1 @ post\<rparr>)
       = extractEndpointPattern (u\<lparr>pathname := pre @ ''/'' @ d2 @ post\<rparr>)
       \<and> extractEndpointPattern_universal (u\<lparr>pathname := pre @ ''/'' @ d1 @ post\<rparr>)
       = extractEndpointPattern_universal (u\<lparr>pathname := pre @ ''/'' @ d2 @ post\<rparr>)"
proof -
  have p: "post = [] \<or> \<not> is_digit (hd post)" using assms(5) slash_not_digit by auto
  have "replaceAll re_id ''/{id}'' (pre @ CHR ''/'' # d1 @ post) = replaceAll re_id ''/{id}'' (pre @ CHR ''/'' # d2 @ post)"
    by (simp only: replaceAll_id_segment[OF assms(1,2) p] replaceAll_id_segment[OF assms(3,4) p])
  then show ?thesis
    by (simp add: extractEndpointPattern_def extractEndpointPattern_universal_def)
qed

subsection \<open>Segments that start with a digit\<close>

text \<open>
  C1 on two URLs that differ only in a UUID segment. The replacement for numeric ids runs
  first and is not anchored at the end of the segment: of a UUID that starts with a digit
  it replaces the leading digits, after which the UUID pattern matches nothing. The
  two URLs get different keys, under either templater.
\<close>

theorem uuid_segments_keys_differ:
  "endpointKey_of extractEndpointPattern ''GET'' (url_x ''/api/docs/1abcdef0-1111-2222-3333-444444444444'')
     = ''GET https://x.com/api/docs/{id}abcdef0-1111-2222-3333-444444444444''
   \<and> endpointKey_of extractEndpointPattern ''GET'' (url_x ''/api/docs/abcdef01-1111-2222-3333-444444444444'')
     = ''GET https://x.com/api/docs/{uuid}''
   \<and> endpointKey_of extractEndpointPattern_universal ''GET'' (url_x ''/api/docs/1abcdef0-1111-2222-3333-444444444444'')
     = ''GET https://x.com/api/docs/{id}abcdef0-1111-2222-3333-444444444444''
   \<and> endpointKey_of extractEndpointPattern_universal ''GET'' (url_x ''/api/docs/abcdef01-1111-2222-3333-444444444444'')
     = ''GET https://x.com/api/docs/{uuid}''"
  by code_simp

subsection \<open>Segments of 24 hexadecimal characters\<close>

text \<open>
  C8 on two segments of exactly 24 characters of \<open>[a-f0-9]\<close>. The replacement for
  object ids comes sixth, after the one for long tokens: a segment that starts with a
  letter has become \<open>{token}\<close> by then, and one that starts with a digit has lost
  its leading digits to \<open>{id}\<close>. Neither becomes \<open>{objectId}\<close>.
\<close>

theorem objectId_rule_shadowed:
  "extractEndpointPattern (url_x ''/api/items/abcdefabcdefabcdefabcdef'') = ''https://x.com/api/items/{token}''
   \<and> extractEndpointPattern (url_x ''/api/items/507f1f77bcf86cd799439011'')
       = ''https://x.com/api/items/{id}f1f77bcf86cd799439011''
   \<and> length ''abcdefabcdefabcdefabcdef'' = 24 \<and> list_all is_hex_lower ''abcdefabcdefabcdefabcdef''
   \<and> length ''507f1f77bcf86cd799439011'' = 24 \<and> list_all is_hex_lower ''507f1f77bcf86cd799439011''"
  by code_simp

text \<open>
  This holds for every URL: after the replacement of long tokens no \<open>/\<close> is followed
  by twenty characters of \<open>[a-zA-Z0-9]\<close>, the two replacements that follow keep it so,
  and a segment of 24 characters of \<open>[a-f0-9]\<close> would be such a run. The replacement
  for object ids therefore never changes the path, and \<open>extractEndpointPattern\<close>
  computes what it would compute without it.
\<close>

theorem objectId_rule_never_applies:
  "extractEndpointPattern u =
     protocol u @ ''//'' @ hostname u @
       replaceAll re_temp ''/{temp}/{file}''
        (replaceAll re_postId ''/p/{postId}''
          (replaceAll re_username (''/@'' @ ''{username}'')
            (replaceAll re_token ''/{token}''
              (replaceAll re_uuid ''/{uuid}''
                (replaceAll re_id ''/{id}'' (pathname u))))))"
proof -
  let ?p3 = "replaceAll re_token ''/{token}'' (replaceAll re_uuid ''/{uuid}'' (replaceAll re_id ''/{id}'' (pathname u)))"
  have "noRun ?p3" by (rule noRun_after_token)
  then have "noRun (replaceAll re_username (''/@'' @ ''{username}'') ?p3)"
    using noRun_replaceAll[of "CHR ''@'' # ''{username}''" ?p3 re_username] closed_username by simp
  then have "noRun (replaceAll re_postId ''/p/{postId}'' (replaceAll re_username (''/@'' @ ''{username}'') ?p3))"
    using noRun_replaceAll[of "''p/{postId}''" _ re_postId] closed_postId by simp
  then show ?thesis
    by (simp add: extractEndpointPattern_def objectId_no_match del: replaceAll.simps)
qed
subsection \<open>Order of arrival\<close>

text \<open>
  C5, as the code has it. Take the events of two exchanges with different request ids
  whose requests are filed under different keys, each event carrying the time at which it
  is handled. Any two interleavings that keep each exchange's own order lead, from the
  empty state, to the same record under every key. The Map's insertion order is not part
  of the statement: it follows the order of arrival.
\<close>

theorem interleavings_agree_for_distinct_keys:
  assumes "\<forall>e\<in>set xs. event_id e = a" and "\<forall>e\<in>set ys. event_id e = b" and "a \<noteq> b"
    and "request_keys U xs \<inter> request_keys U ys = {}"
    and "zs \<in> shuffles xs ys" and "zs' \<in> shuffles xs ys"
  shows "map_of (endpoints (fold (ingest U J P) zs recon_init))
       = map_of (endpoints (fold (ingest U J P) zs' recon_init))"
proof -
  let ?KA = "request_keys U xs" and ?KB = "request_keys U ys"
  have xs: "\<forall>e\<in>set xs. event_id e = a \<and> (\<forall>k. request_key U e = Some k \<longrightarrow> k \<in> ?KA)"
    using assms(1) request_keys_member by blast
  have ys: "\<forall>e\<in>set ys. event_id e = b \<and> (\<forall>k. request_key U e = Some k \<longrightarrow> k \<in> ?KB)"
    using assms(2) request_keys_member by blast
  have sep0: "separated ?KA a ?KB b []" by (rule separated_Nil)
  have r0: "restrict_keys K [] = []" for K by (simp add: restrict_keys_def)
  have one: "map_of (fold (ingest_eps U J P) ws []) k
      = (if k \<in> ?KA then map_of (fold (ingest_eps U J P) xs []) k
         else map_of (fold (ingest_eps U J P) ys []) k)"
    if "ws \<in> shuffles xs ys" for ws k
  proof -
    from interleave_projection[OF assms(4,3) that sep0 xs ys, of J P]
    have p: "restrict_keys ?KA (fold (ingest_eps U J P) ws []) = fold (ingest_eps U J P) xs []"
      "restrict_keys ?KB (fold (ingest_eps U J P) ws []) = fold (ingest_eps U J P) ys []"
      "separated ?KA a ?KB b (fold (ingest_eps U J P) ws [])"
      by (simp_all add: r0)
    show ?thesis using separated_map_of[OF p(3), of k] by (simp add: p(1,2))
  qed
  have "map_of (fold (ingest_eps U J P) zs []) k = map_of (fold (ingest_eps U J P) zs' []) k" for k
    using one[OF assms(5), of k] one[OF assms(6), of k] by simp
  then show ?thesis
    by (simp add: endpoints_fold_ingest recon_init_def fun_eq_iff)
qed

theorem interleavings_agree_for_distinct_keys_witness:
  "map_of (endpoints (run (exchange ''1'' ''https://x.com/api/users/123'' @ exchange ''2'' ''https://x.com/api/posts/9'')))
   = map_of (endpoints (run (exchange ''2'' ''https://x.com/api/posts/9'' @ exchange ''1'' ''https://x.com/api/users/123'')))
   \<and> map fst (endpoints (run (exchange ''1'' ''https://x.com/api/users/123'' @ exchange ''2'' ''https://x.com/api/posts/9'')))
     = [''GET /api/users/123'', ''GET /api/posts/9'']
   \<and> map fst (endpoints (run (exchange ''2'' ''https://x.com/api/posts/9'' @ exchange ''1'' ''https://x.com/api/users/123'')))
     = [''GET /api/posts/9'', ''GET /api/users/123'']"
proof -
  let ?xs = "exchange ''1'' ''https://x.com/api/users/123''"
  let ?ys = "exchange ''2'' ''https://x.com/api/posts/9''"
  have h1: "\<forall>e\<in>set ?xs. event_id e = ''1''" by code_simp
  have h2: "\<forall>e\<in>set ?ys. event_id e = ''2''" by code_simp
  have h3: "''1'' \<noteq> ''2''" by simp
  have h4: "request_keys URL_simple ?xs \<inter> request_keys URL_simple ?ys = {}" by code_simp
  have h5: "?xs @ ?ys \<in> shuffles ?xs ?ys" by (rule append_in_shuffles)
  have h6: "?ys @ ?xs \<in> shuffles ?xs ?ys"
    using append_in_shuffles[of ?ys ?xs] by (simp add: shuffles_commutes)
  have m: "map_of (endpoints (run (?xs @ ?ys))) = map_of (endpoints (run (?ys @ ?xs)))"
    unfolding run_def
    by (rule interleavings_agree_for_distinct_keys[OF h1 h2 h3 h4 h5 h6])
  have o1: "map fst (endpoints (run (?xs @ ?ys))) = [''GET /api/users/123'', ''GET /api/posts/9'']"
    by code_simp
  have o2: "map fst (endpoints (run (?ys @ ?xs))) = [''GET /api/posts/9'', ''GET /api/users/123'']"
    by code_simp
  show ?thesis using m o1 o2 by simp
qed

text \<open>
  C5 as stated fails when the two exchanges share a key: the requests and responses of
  the one endpoint are listed in order of arrival, \<open>1, 2\<close> for one interleaving and
  \<open>2, 1\<close> for the other.
\<close>

theorem interleaving_same_key_counterexample:
  "map (\<lambda>ke. (fst ke, map rq_requestId (ep_requests (snd ke)), map rs_requestId (ep_responses (snd ke))))
     (endpoints (run (exchange ''1'' ''https://x.com/api/users/123'' @ exchange ''2'' ''https://x.com/api/users/123'')))
   = [(''GET /api/users/123'', [''1'', ''2''], [''1'', ''2''])]
   \<and> map (\<lambda>ke. (fst ke, map rq_requestId (ep_requests (snd ke)), map rs_requestId (ep_responses (snd ke))))
     (endpoints (run (exchange ''2'' ''https://x.com/api/users/123'' @ exchange ''1'' ''https://x.com/api/users/123'')))
   = [(''GET /api/users/123'', [''2'', ''1''], [''2'', ''1''])]"
  by code_simp

end
